theory Spec2Isabelle
  imports Main
begin

section \<open>Strings and tokens\<close>

text \<open>
  A JavaScript string is modelled as a \<^typ>\<open>string\<close>: one \<^typ>\<open>char\<close> per UTF-16 code
  unit, for code units below 256.  A \<open>Map<string, T>\<close> is modelled as an association list
  in insertion order with distinct keys (\<open>has\<close>/\<open>get\<close> are \<^const>\<open>map_of\<close>).
\<close>

text \<open>\<open>interface Token { type: string; value: string }\<close>\<close>

record token =
  tok_type :: string
  tok_value :: string

text \<open>\<open>createToken(type, value)\<close> of the obfuscator's tests: \<open>{ type, value }\<close>.\<close>

definition createToken :: "string \<Rightarrow> string \<Rightarrow> token" where
  "createToken ty v = \<lparr>tok_type = ty, tok_value = v\<rparr>"

section \<open>Obfuscation: name generation\<close>

text \<open>\<open>Number.prototype.toString(36)\<close> on a non-negative integer.\<close>

definition digit36 :: "nat \<Rightarrow> char" where
  "digit36 d = ''0123456789abcdefghijklmnopqrstuvwxyz'' ! d"

fun toString36 :: "nat \<Rightarrow> string" where
  "toString36 n = (if n < 36 then [digit36 n] else toString36 (n div 36) @ [digit36 (n mod 36)])"

declare toString36.simps [simp del]

text \<open>
  \<open>nextName\<close> of next-name.ts: the module-level counter \<open>index\<close> is passed in and returned
  incremented; \<open>resetNameIndex\<close> sets it to 0.
\<close>

definition nextName :: "nat \<Rightarrow> string \<times> nat" where
  "nextName index = (CHR ''_'' # toString36 index, index + 1)"

section \<open>Obfuscation: swizzles\<close>

text \<open>
  \<open>generateCombinations\<close> of swizzles.ts.  The components are one-character strings, so
  \<open>prefix + component\<close> appends one char.  The source only calls it with the empty prefix
  and a length of 1 to 4; a prefix longer than \<open>length\<close> (where the source would recurse
  without end) is never reached and returns the set as it is.
\<close>

function generateCombinations :: "char list \<Rightarrow> nat \<Rightarrow> string \<Rightarrow> string set \<Rightarrow> string set" where
  "generateCombinations components len prefix result =
     (if length prefix = len then insert prefix result
      else if len < length prefix then result
      else fold (\<lambda>component r. generateCombinations components len (prefix @ [component]) r)
             components result)"
  by pat_completeness auto
termination
  by (relation "measure (\<lambda>(components, len, prefix, result). len - length prefix)") auto

declare generateCombinations.simps [simp del]

definition swizzle_components :: "char list" where
  "swizzle_components = ''xyzwrgba''"

definition generateSwizzles :: "string set" where
  "generateSwizzles =
     fold (\<lambda>len s. generateCombinations swizzle_components len [] s) [1, 2, 3, 4] {}"

definition swizzles :: "string set" where
  "swizzles = generateSwizzles"

text \<open>\<open>isPotentialSwizzle\<close> of collect-struct-names.ts.\<close>

definition isPotentialSwizzle :: "string \<Rightarrow> bool" where
  "isPotentialSwizzle name =
     (if length name < 1 \<or> length name > 4 then False
      else list_all (\<lambda>char. [char] \<in> swizzles) name)"

section \<open>Obfuscation: struct member collection\<close>

type_synonym name_map = "(string \<times> string) list"

text \<open>
  The loops of collect-struct-names.ts walk an index \<open>i\<close> over \<open>tokens\<close>; the model walks
  the suffix \<open>tokens.slice(i)\<close>, so \<open>tokens[i + 1]\<close> is the head of the tail and
  \<open>i + 1 < tokens.length\<close> says the tail is not empty.
\<close>

definition next_is :: "token list \<Rightarrow> string \<Rightarrow> bool" where
  "next_is ts v = (case ts of [] \<Rightarrow> False | n # _ \<Rightarrow> tok_value n = v)"

definition registerMember :: "string \<Rightarrow> name_map \<times> nat \<Rightarrow> name_map \<times> nat" where
  "registerMember memberName st =
     (case st of (structMemberMap, index) \<Rightarrow>
        if \<not> isPotentialSwizzle memberName \<and> map_of structMemberMap memberName = None
        then (structMemberMap @ [(memberName, fst (nextName index))], snd (nextName index))
        else (structMemberMap, index))"

text \<open>The inner \<open>while (i < tokens.length && tokens[i].value !== "}")\<close>; returns the
  tokens from the stopping index on.\<close>

fun structBody :: "token list \<Rightarrow> name_map \<times> nat \<Rightarrow> token list \<times> (name_map \<times> nat)" where
  "structBody [] st = ([], st)"
| "structBody (t # ts) st =
     (if tok_value t = ''}'' then (t # ts, st)
      else structBody ts
             (if tok_type t = ''identifier'' \<and> next_is ts '':''
              then registerMember (tok_value t) st else st))"

lemma structBody_length: "length (fst (structBody ts st)) \<le> length ts"
  by (induction ts st rule: structBody.induct) (auto simp: le_SucI)

text \<open>The outer \<open>for\<close> loop: on the keyword \<open>struct\<close>, \<open>i += 2\<close>, the inner loop,
  then the loop's own \<open>i++\<close>.\<close>

function collectStructNames_loop :: "token list \<Rightarrow> name_map \<times> nat \<Rightarrow> name_map \<times> nat" where
  "collectStructNames_loop [] st = st"
| "collectStructNames_loop (t # ts) st =
     (if tok_type t = ''keyword'' \<and> tok_value t = ''struct''
      then (case structBody (drop 1 ts) st of
              (rest, st') \<Rightarrow> collectStructNames_loop (drop 1 rest) st')
      else collectStructNames_loop ts st)"
  by pat_completeness auto
termination
proof (relation "measure (\<lambda>(ts, st). length ts)", simp_all)
  fix ts :: "token list" and st :: "name_map \<times> nat" and x y
  assume "(x, y) = structBody (drop (Suc 0) ts) st"
  then have "x = fst (structBody (drop (Suc 0) ts) st)"
    by (metis fst_conv)
  then have "length x \<le> length (drop (Suc 0) ts)"
    by (simp only: structBody_length)
  then show "length x - Suc 0 < Suc (length ts)"
    by simp
qed

text \<open>\<open>collectStructNames\<close>: returns the struct member map and the counter after it.\<close>

definition collectStructNames :: "token list \<Rightarrow> nat \<Rightarrow> name_map \<times> nat" where
  "collectStructNames tokens index = collectStructNames_loop tokens ([], index)"

section \<open>Character classes of the regular expressions\<close>

text \<open>\<open>\s\<close>: tab, line feed, vertical tab, form feed, carriage return, space and the
  no-break space (the white space and line terminators below code unit 256).\<close>

definition is_space :: "char \<Rightarrow> bool" where
  "is_space c = (of_char c \<in> {9, 10, 11, 12, 13, 32, 160 :: nat})"

definition is_digit :: "char \<Rightarrow> bool" where
  "is_digit c = (48 \<le> (of_char c :: nat) \<and> (of_char c :: nat) \<le> 57)"

text \<open>\<open>[a-zA-Z]\<close>: code units 97 to 122 and 65 to 90.\<close>

definition is_alpha :: "char \<Rightarrow> bool" where
  "is_alpha c = ((97 \<le> (of_char c :: nat) \<and> (of_char c :: nat) \<le> 122)
                 \<or> (65 \<le> (of_char c :: nat) \<and> (of_char c :: nat) \<le> 90))"

text \<open>\<open>[a-zA-Z_]\<close> and \<open>\w\<close> = \<open>[a-zA-Z0-9_]\<close>.\<close>

definition is_ident_start :: "char \<Rightarrow> bool" where
  "is_ident_start c = (is_alpha c \<or> c = CHR ''_'')"

definition is_word :: "char \<Rightarrow> bool" where
  "is_word c = (is_alpha c \<or> is_digit c \<or> c = CHR ''_'')"

section \<open>Obfuscation: declared identifiers and entry points\<close>

text \<open>\<open>Map.prototype.set\<close>: a present key keeps its place and takes the new value, a new
  key goes to the end.\<close>

fun map_set :: "('k \<times> 'v) list \<Rightarrow> 'k \<Rightarrow> 'v \<Rightarrow> ('k \<times> 'v) list" where
  "map_set [] k v = [(k, v)]"
| "map_set (p # ps) k v = (if fst p = k then (k, v) # ps else p # map_set ps k v)"

text \<open>
  \<open>token.value.match(/^#(\w+)\s+"([^"]+)"/)\<close>: the directive type and the quoted name,
  with the length of the match.  Each quantifier is greedy and is followed by a character
  outside its class, so the longest run is the only one that can match.
\<close>

definition matchDirective :: "string \<Rightarrow> (string \<times> string \<times> nat) option" where
  "matchDirective s =
     (case s of
        [] \<Rightarrow> None
      | c # r \<Rightarrow>
          if c \<noteq> CHR ''#'' then None
          else let w = takeWhile is_word r; r1 = dropWhile is_word r;
                   sp = takeWhile is_space r1; r2 = dropWhile is_space r1
               in if w = [] \<or> sp = [] then None
                  else (case r2 of
                          [] \<Rightarrow> None
                        | q # r3 \<Rightarrow>
                            if q \<noteq> CHR 0x22 then None
                            else let nm = takeWhile (\<lambda>x. x \<noteq> CHR 0x22) r3;
                                     r4 = dropWhile (\<lambda>x. x \<noteq> CHR 0x22) r3
                                 in if nm = [] \<or> r4 = [] then None
                                    else Some (w, nm, 1 + length w + length sp + 1 + length nm + 1)))"

record collect_state =
  cs_identifierMap :: name_map
  cs_bindingMap :: name_map
  cs_entryPointNames :: "string set"
  cs_nameIndex :: nat

text \<open>\<open>if (!identifierMap.has(name)) identifierMap.set(name, nextName())\<close>\<close>

definition registerIdentifier :: "string \<Rightarrow> collect_state \<Rightarrow> collect_state" where
  "registerIdentifier name st =
     (if map_of (cs_identifierMap st) name = None
      then st\<lparr>cs_identifierMap := map_set (cs_identifierMap st) name (fst (nextName (cs_nameIndex st))),
              cs_nameIndex := snd (nextName (cs_nameIndex st))\<rparr>
      else st)"

text \<open>The branch for a token of type \<open>directive\<close>.\<close>

definition collectDirective :: "token \<Rightarrow> collect_state \<Rightarrow> collect_state" where
  "collectDirective t st =
     (case matchDirective (tok_value t) of
        None \<Rightarrow> st
      | Some (directiveType, name, n) \<Rightarrow>
          if directiveType = ''binding'' then
            (let st1 = registerIdentifier name st
             in st1\<lparr>cs_bindingMap := map_set (cs_bindingMap st1) name (the (map_of (cs_identifierMap st1) name))\<rparr>)
          else if directiveType = ''entrypoint'' then
            st\<lparr>cs_entryPointNames := insert name (cs_entryPointNames st)\<rparr>
          else st)"

text \<open>The function name after \<open>fn\<close>: registered unless it is an entry point, or is
  \<open>main\<close> while no entry point has been named.\<close>

definition registerFunction :: "string \<Rightarrow> collect_state \<Rightarrow> collect_state" where
  "registerFunction funcName st =
     (if \<not> (funcName \<in> cs_entryPointNames st \<or> (cs_entryPointNames st = {} \<and> funcName = ''main''))
      then registerIdentifier funcName st else st)"

definition next_is_identifier :: "token list \<Rightarrow> bool" where
  "next_is_identifier ts = (case ts of [] \<Rightarrow> False | n # _ \<Rightarrow> tok_type n = ''identifier'')"

text \<open>The parameter loop \<open>while (i < tokens.length && tokens[i].value !== ")")\<close>, from the
  token after the opening parenthesis; returns the tokens from the stopping index on.\<close>

fun paramLoop :: "token list \<Rightarrow> collect_state \<Rightarrow> token list \<times> collect_state" where
  "paramLoop [] st = ([], st)"
| "paramLoop [t] st = (if tok_value t = '')'' then ([t], st) else ([], st))"
| "paramLoop (t # n # ts) st =
     (if tok_value t = '')'' then (t # n # ts, st)
      else if tok_type t = ''identifier'' \<and> tok_value n = '':''
      then paramLoop ts (registerIdentifier (tok_value t) st)
      else paramLoop (n # ts) st)"

lemma paramLoop_length: "length (fst (paramLoop ts st)) \<le> length ts"
  by (induction ts st rule: paramLoop.induct) (auto simp: le_SucI)

text \<open>The \<open>for\<close> loop of \<open>collectDeclaredIdentifiersAndEntryPoints\<close>.\<close>

function collectDeclared_loop :: "token list \<Rightarrow> collect_state \<Rightarrow> collect_state" where
  "collectDeclared_loop [] st = st"
| "collectDeclared_loop (t # ts) st =
     (if tok_type t = ''directive'' then collectDeclared_loop ts (collectDirective t st)
      else if tok_type t = ''keyword'' then
        (if tok_value t = ''fn'' \<and> next_is_identifier ts then
           (let st1 = registerFunction (tok_value (hd ts)) st
            in if next_is (tl ts) ''(''
               then (case paramLoop (drop 2 ts) st1 of
                       (rest, st2) \<Rightarrow> collectDeclared_loop (drop 1 rest) st2)
               else collectDeclared_loop (tl ts) st1)
         else if (tok_value t = ''let'' \<or> tok_value t = ''var'' \<or> tok_value t = ''const'')
                 \<and> next_is_identifier ts then
           collectDeclared_loop (tl ts) (registerIdentifier (tok_value (hd ts)) st)
         else if tok_value t = ''struct'' \<and> next_is_identifier ts then
           collectDeclared_loop (tl ts) (registerIdentifier (tok_value (hd ts)) st)
         else collectDeclared_loop ts st)
      else collectDeclared_loop ts st)"
  by pat_completeness auto
termination
proof (relation "measure (\<lambda>(ts, st). length ts)", simp_all)
  fix ts :: "token list" and st :: collect_state and x y
  assume "(x, y) = paramLoop (drop 2 ts) (registerFunction (tok_value (hd ts)) st)"
  then have "x = fst (paramLoop (drop 2 ts) (registerFunction (tok_value (hd ts)) st))"
    by (metis fst_conv)
  then have "length x \<le> length (drop 2 ts)"
    by (simp only: paramLoop_length)
  then show "length x - Suc 0 < Suc (length ts)"
    by simp
qed

definition collectDeclaredIdentifiersAndEntryPoints :: "token list \<Rightarrow> nat \<Rightarrow> collect_state" where
  "collectDeclaredIdentifiersAndEntryPoints tokens index =
     collectDeclared_loop tokens
       \<lparr>cs_identifierMap = [], cs_bindingMap = [], cs_entryPointNames = {}, cs_nameIndex = index\<rparr>"

section \<open>Obfuscation: replacement and reconstruction\<close>

text \<open>\<open>const newValue = map.get(token.value); if (newValue) push({...token, value: newValue})
  else push(token)\<close>: an absent key and an empty replacement both leave the token.\<close>

definition renameWith :: "name_map \<Rightarrow> token \<Rightarrow> token" where
  "renameWith m t =
     (case map_of m (tok_value t) of
        None \<Rightarrow> t
      | Some newValue \<Rightarrow> if newValue = [] then t else t\<lparr>tok_value := newValue\<rparr>)"

text \<open>
  What one iteration of the loop of \<open>replaceIdentifiers\<close> pushes for a token that is neither
  the keyword \<open>struct\<close> nor the closing brace of a struct definition: \<open>prev\<close> is
  \<open>tokens[i - 1]\<close> (\<open>None\<close> when \<open>i = 0\<close>), \<open>ts\<close> the tokens after \<open>tokens[i]\<close>;
  \<open>None\<close> says that nothing is pushed.
\<close>

definition replaceToken ::
  "name_map \<Rightarrow> name_map \<Rightarrow> bool \<Rightarrow> token option \<Rightarrow> token \<Rightarrow> token list \<Rightarrow> token option" where
  "replaceToken identifierMap structMemberMap inStructDefinition prev t ts =
     (if tok_type t = ''identifier'' then
        (if inStructDefinition \<and> next_is ts '':'' then Some (renameWith structMemberMap t)
         else if (case prev of None \<Rightarrow> False | Some p \<Rightarrow> tok_value p = ''.'') then
           (if map_of structMemberMap (tok_value t) \<noteq> None \<and> tok_value t \<notin> swizzles
            then Some (t\<lparr>tok_value := the (map_of structMemberMap (tok_value t))\<rparr>)
            else Some t)
         else Some (renameWith identifierMap t))
      else if tok_type t = ''builtin'' \<or> tok_type t \<noteq> ''directive'' then Some t
      else if tok_type t \<noteq> ''directive'' then Some t
      else None)"

text \<open>The loop of \<open>replaceIdentifiers\<close>, one entry per input token: what the iteration
  pushed onto \<open>obfuscatedTokens\<close>.\<close>

fun replaceSteps ::
  "name_map \<Rightarrow> name_map \<Rightarrow> bool \<Rightarrow> token option \<Rightarrow> token list \<Rightarrow> token option list" where
  "replaceSteps identifierMap structMemberMap inStructDefinition prev [] = []"
| "replaceSteps identifierMap structMemberMap inStructDefinition prev (t # ts) =
     (if tok_type t = ''keyword'' \<and> tok_value t = ''struct''
      then Some t # replaceSteps identifierMap structMemberMap True (Some t) ts
      else if inStructDefinition \<and> tok_value t = ''}''
      then Some t # replaceSteps identifierMap structMemberMap False (Some t) ts
      else replaceToken identifierMap structMemberMap inStructDefinition prev t ts
           # replaceSteps identifierMap structMemberMap inStructDefinition (Some t) ts)"

definition replaceIdentifiers :: "token list \<Rightarrow> name_map \<Rightarrow> name_map \<Rightarrow> token list" where
  "replaceIdentifiers tokens identifierMap structMemberMap =
     List.map_filter (\<lambda>x. x) (replaceSteps identifierMap structMemberMap False None tokens)"

text \<open>The value of \<open>inStructDefinition\<close> after the loop of \<open>replaceIdentifiers\<close> has run
  over the given tokens, starting from the given value.\<close>

fun inStructDefinition_after :: "bool \<Rightarrow> token list \<Rightarrow> bool" where
  "inStructDefinition_after b [] = b"
| "inStructDefinition_after b (t # ts) =
     inStructDefinition_after
       (if tok_type t = ''keyword'' \<and> tok_value t = ''struct'' then True
        else if b \<and> tok_value t = ''}'' then False else b) ts"

text \<open>
  \<open>reconstructObfuscatedCode\<close>: \<open>nextToken\<close> is read from \<open>obfuscatedTokens\<close> under a bound
  on the length of the original \<open>tokens\<close>; past the end of \<open>obfuscatedTokens\<close> it is
  \<open>undefined\<close>, which is as falsy as \<open>null\<close>.
\<close>

fun reconstruct_from :: "nat \<Rightarrow> token list \<Rightarrow> nat \<Rightarrow> string" where
  "reconstruct_from n [] i = []"
| "reconstruct_from n (t # ots) i =
     tok_value t
     @ (if i + 1 < n \<and> ots \<noteq> []
           \<and> (tok_type t = ''keyword'' \<or> tok_type t = ''identifier'' \<or> tok_type t = ''attribute'')
           \<and> tok_type (hd ots) \<noteq> ''operator''
        then '' '' else [])
     @ reconstruct_from n ots (i + 1)"

definition reconstructObfuscatedCode :: "token list \<Rightarrow> token list \<Rightarrow> string" where
  "reconstructObfuscatedCode obfuscatedTokens tokens =
     reconstruct_from (length tokens) obfuscatedTokens 0"

text \<open>
  \<open>obfuscate\<close> after tokenization: the counter is reset, comment tokens are filtered out,
  the two collection passes and the replacement pass run on the same tokens.
\<close>

definition obfuscateTokens :: "token list \<Rightarrow> token list" where
  "obfuscateTokens toks =
     (let tokens = filter (\<lambda>t. tok_type t \<noteq> ''comment'') toks;
          sm = collectStructNames tokens 0;
          st = collectDeclaredIdentifiersAndEntryPoints tokens (snd sm)
      in replaceIdentifiers tokens (cs_identifierMap st) (fst sm))"

definition bindingComments :: "name_map \<Rightarrow> string list" where
  "bindingComments bm = map (\<lambda>(oldName, newName). ''//#!binding '' @ oldName @ '' '' @ newName) bm"

definition joinLines :: "string list \<Rightarrow> string" where
  "joinLines ls = (case ls of [] \<Rightarrow> [] | l # rest \<Rightarrow> l @ concat (map (\<lambda>x. CHR 0x0A # x) rest))"

definition obfuscateCode :: "token list \<Rightarrow> string" where
  "obfuscateCode toks =
     (let tokens = filter (\<lambda>t. tok_type t \<noteq> ''comment'') toks;
          sm = collectStructNames tokens 0;
          st = collectDeclaredIdentifiersAndEntryPoints tokens (snd sm);
          obfuscatedCode =
            reconstructObfuscatedCode (replaceIdentifiers tokens (cs_identifierMap st) (fst sm)) tokens;
          comments = joinLines (bindingComments (cs_bindingMap st))
      in if comments \<noteq> [] then comments @ [CHR 0x0A] @ obfuscatedCode else obfuscatedCode)"

text \<open>
  The ways other than \<open>fn name\<close> by which the collection passes can register \<open>name\<close>,
  read off the token list: a \<open>binding\<close> directive that names it, one of the keywords
  \<open>let\<close>, \<open>var\<close>, \<open>const\<close>, \<open>struct\<close> directly before it, or a colon directly
  after it (a parameter or a struct member).
\<close>

fun declared_otherwise :: "string \<Rightarrow> token list \<Rightarrow> bool" where
  "declared_otherwise name [] = False"
| "declared_otherwise name (t # ts) =
     ((tok_type t = ''directive''
         \<and> (case matchDirective (tok_value t) of
               None \<Rightarrow> False
             | Some (directiveType, n, l) \<Rightarrow> directiveType = ''binding'' \<and> n = name))
      \<or> (ts \<noteq> [] \<and> tok_value (hd ts) = name \<and> tok_type t = ''keyword''
           \<and> (tok_value t = ''let'' \<or> tok_value t = ''var'' \<or> tok_value t = ''const''
                \<or> tok_value t = ''struct''))
      \<or> (tok_value t = name \<and> next_is ts '':'')
      \<or> declared_otherwise name ts)"

section \<open>String operations of the host language\<close>

text \<open>\<open>String.prototype.trim\<close>: strips white space and line terminators at both ends,
  the characters of \<open>\s\<close>.\<close>

definition trim :: "string \<Rightarrow> string" where
  "trim s = rev (dropWhile is_space (rev (dropWhile is_space s)))"

text \<open>\<open>s.startsWith(p)\<close>\<close>

definition startsWith :: "string \<Rightarrow> string \<Rightarrow> bool" where
  "startsWith s p = (take (length p) s = p)"

text \<open>\<open>s.indexOf(p)\<close>: the index of the first occurrence, \<open>None\<close> for \<open>-1\<close>.\<close>

fun indexOf :: "string \<Rightarrow> string \<Rightarrow> nat option" where
  "indexOf [] p = (if p = [] then Some 0 else None)"
| "indexOf (c # cs) p =
     (if startsWith (c # cs) p then Some 0 else map_option Suc (indexOf cs p))"

text \<open>\<open>Number.prototype.toString()\<close> on a non-negative integer (decimal).\<close>

fun toString10 :: "nat \<Rightarrow> string" where
  "toString10 n =
     (if n < 10 then [''0123456789'' ! n]
      else toString10 (n div 10) @ [''0123456789'' ! (n mod 10)])"

declare toString10.simps [simp del]

text \<open>
  \<open>GetSubstitution\<close> of ECMAScript for a match without capture groups: in a replacement
  \<^emph>\<open>string\<close>, \<open>$$\<close> stands for \<open>$\<close>, \<open>$&\<close> for the matched text, \<open>$`\<close> for the text
  before the match and \<open>$'\<close> for the text after it; every other \<open>$\<close> is literal.
\<close>

fun getSubstitution :: "string \<Rightarrow> string \<Rightarrow> string \<Rightarrow> string \<Rightarrow> string" where
  "getSubstitution matched preceding following [] = []"
| "getSubstitution matched preceding following [c] = [c]"
| "getSubstitution matched preceding following (c # d # r) =
     (if c = CHR ''$'' \<and> d = CHR ''$'' then CHR ''$'' # getSubstitution matched preceding following r
      else if c = CHR ''$'' \<and> d = CHR ''&'' then matched @ getSubstitution matched preceding following r
      else if c = CHR ''$'' \<and> d = CHR 0x60 then preceding @ getSubstitution matched preceding following r
      else if c = CHR ''$'' \<and> d = CHR 0x27 then following @ getSubstitution matched preceding following r
      else c # getSubstitution matched preceding following (d # r))"

text \<open>\<open>s.replace(pattern, replacement)\<close> with a \<^emph>\<open>string\<close> pattern and a string
  replacement: the first occurrence only, the replacement read by \<open>GetSubstitution\<close>.\<close>

definition replaceFirst :: "string \<Rightarrow> string \<Rightarrow> string \<Rightarrow> string" where
  "replaceFirst s pattern replacement =
     (case indexOf s pattern of
        None \<Rightarrow> s
      | Some i \<Rightarrow>
          take i s
          @ getSubstitution pattern (take i s) (drop (i + length pattern) s) replacement
          @ drop (i + length pattern) s)"

text \<open>
  \<open>\b\<close>: between two positions of which exactly one holds a word character; the
  position before the start and the one after the end hold none.
\<close>

definition word_at :: "char option \<Rightarrow> bool" where
  "word_at c = (case c of None \<Rightarrow> False | Some x \<Rightarrow> is_word x)"

definition word_boundary :: "char option \<Rightarrow> char option \<Rightarrow> bool" where
  "word_boundary prev nxt = (word_at prev \<noteq> word_at nxt)"

definition head_of :: "string \<Rightarrow> char option" where
  "head_of s = (case s of [] \<Rightarrow> None | c # _ \<Rightarrow> Some c)"

text \<open>
  The macro expander builds its regular expressions with \<open>new RegExp\<close> from macro
  names and parameter names.  The model reads a name as the literal text it is, which
  is what the regular expression does when the name is an identifier, as every name and
  parameter is that \<open>#define\<close> stores.  For a name with metacharacters of regular
  expressions the code matches other text or fails in \<open>new RegExp\<close>; the model is of
  the code on tables that satisfy \<open>identifier_table\<close>, and the theorems about what the
  expander does with a table assume it.
\<close>

definition is_identifier :: "string \<Rightarrow> bool" where
  "is_identifier s = (s \<noteq> [] \<and> is_ident_start (hd s) \<and> list_all is_word s)"

text \<open>
  \<open>\bNAME\b\<close> tried at the start of \<open>s\<close>, where \<open>prev\<close> is the character before.
\<close>

definition word_match :: "string \<Rightarrow> char option \<Rightarrow> string \<Rightarrow> bool" where
  "word_match name prev s =
     (name \<noteq> [] \<and> startsWith s name
      \<and> word_boundary prev (head_of name)
      \<and> word_boundary (Some (last name)) (head_of (drop (length name) s)))"

text \<open>
  \<open>s.replace(/\bNAME\b/g, r)\<close>: the matches from left to right, none overlapping.  The
  replacement \<open>repl\<close> is given the text before the match and the text after it (of the
  string the call started with), which is what a replacement string can refer to; the
  second component says whether anything matched.
\<close>

function replaceWord ::
  "string \<Rightarrow> (string \<Rightarrow> string \<Rightarrow> string) \<Rightarrow> string \<Rightarrow> char option \<Rightarrow> string \<Rightarrow> string \<times> bool" where
  "replaceWord name repl preceding prev [] = ([], False)"
| "replaceWord name repl preceding prev (c # cs) =
     (if word_match name prev (c # cs)
      then (repl preceding (drop (length name) (c # cs))
            @ fst (replaceWord name repl (preceding @ name) (Some (last name))
                     (drop (length name) (c # cs))), True)
      else (case replaceWord name repl (preceding @ [c]) (Some c) cs of
              (r, matched) \<Rightarrow> (c # r, matched)))"
  by pat_completeness auto
termination
  by (relation "measure (\<lambda>(name, repl, preceding, prev, s). length s)")
     (auto simp: word_match_def)

declare replaceWord.simps [simp del]

text \<open>With a replacement function that returns a fixed text, and with a replacement
  string.\<close>

definition replaceWordWith :: "string \<Rightarrow> string \<Rightarrow> string \<Rightarrow> string \<times> bool" where
  "replaceWordWith name v s = replaceWord name (\<lambda>preceding following. v) [] None s"

definition replaceWordString :: "string \<Rightarrow> string \<Rightarrow> string \<Rightarrow> string" where
  "replaceWordString name replacement s =
     fst (replaceWord name (\<lambda>preceding following. getSubstitution name preceding following replacement)
            [] None s)"

section \<open>Macros\<close>

text \<open>\<open>type Macro = { value: string; params?: string[] }\<close>; a macro table
  \<open>Map<string, Macro>\<close> in insertion order.\<close>

record macro =
  mvalue :: string
  mparams :: "string list option"

type_synonym macro_table = "(string \<times> macro) list"



text \<open>The errors the preprocessor throws.  \<open>ArityError name k j\<close> is
  \<open>Error(`Macro ${name} expects ${k} arguments, got ${j}`)\<close>.\<close>

datatype pp_error =
    ArityError string nat nat
  | UnexpectedElif
  | ElifAfterElse
  | UnexpectedElse
  | MultipleElse
  | UnexpectedEndif
  | UnmatchedIf
  | HandlerTypeError


section \<open>Macro expansion: protecting string literals\<close>

text \<open>The locals of the scanning loop at the head of \<open>expandMacros\<close>.\<close>

record protect_state =
  stringLiterals :: "string list"
  inString :: bool
  stringChar :: char
  escaped :: bool
  currentString :: string
  protectedLine :: string

definition placeholder :: "nat \<Rightarrow> string" where
  "placeholder i = ''###STRING_LITERAL_'' @ toString10 i @ ''###''"

text \<open>One iteration of \<open>for (let i = 0; i < line.length; i++)\<close> on \<open>char = line[i]\<close>.\<close>

definition protectChar :: "char \<Rightarrow> protect_state \<Rightarrow> protect_state" where
  "protectChar char st =
     (if escaped st then
        (if inString st then st\<lparr>currentString := currentString st @ [char], escaped := False\<rparr>
         else st\<lparr>protectedLine := protectedLine st @ [char], escaped := False\<rparr>)
      else if char = CHR 0x5C then
        (if inString st then st\<lparr>currentString := currentString st @ [char], escaped := True\<rparr>
         else st\<lparr>protectedLine := protectedLine st @ [char], escaped := True\<rparr>)
      else if (char = CHR 0x22 \<or> char = CHR 0x27) \<and> (\<not> inString st \<or> char = stringChar st) then
        (if inString st then
           st\<lparr>stringLiterals := stringLiterals st @ [currentString st @ [char]],
              protectedLine := protectedLine st @ placeholder (length (stringLiterals st)),
              currentString := [],
              inString := False\<rparr>
         else st\<lparr>inString := True, stringChar := char, currentString := [char]\<rparr>)
      else if inString st then st\<lparr>currentString := currentString st @ [char]\<rparr>
      else st\<lparr>protectedLine := protectedLine st @ [char]\<rparr>)"

text \<open>The whole scan, with the closing of a string left open at the end of the line.\<close>

definition protectStrings :: "string \<Rightarrow> string list \<times> string" where
  "protectStrings line =
     (let st = fold protectChar line
                 \<lparr>stringLiterals = [], inString = False, stringChar = CHR 0x00,
                  escaped = False, currentString = [], protectedLine = []\<rparr>
      in if inString st
         then (stringLiterals st @ [currentString st],
               protectedLine st @ placeholder (length (stringLiterals st)))
         else (stringLiterals st, protectedLine st))"

text \<open>\<open>for (i = 0; i < stringLiterals.length; i++)
  result = result.replace(`###STRING_LITERAL_${i}###`, stringLiterals[i])\<close>\<close>

fun restoreStrings :: "nat \<Rightarrow> string list \<Rightarrow> string \<Rightarrow> string" where
  "restoreStrings i [] result = result"
| "restoreStrings i (l # ls) result =
     restoreStrings (i + 1) ls (replaceFirst result (placeholder i) l)"

section \<open>Macro expansion: object-like macros\<close>

text \<open>\<open>.\<close> of a regular expression: any character but a line terminator.\<close>

definition is_line_terminator :: "char \<Rightarrow> bool" where
  "is_line_terminator c = (c = CHR 0x0A \<or> c = CHR 0x0D)"

text \<open>
  \<open>^\s*NAME\s+is\s+defined\s*$\<close> or \<open>^\s*NAME\s+is\s+defined\s*(//.*)?$\<close> tested on
  \<open>result\<close>.  \<open>after_spaces\<close> strips \<open>\s+\<close> (at least one) and fails otherwise.
\<close>

definition after_spaces :: "string \<Rightarrow> string option" where
  "after_spaces s = (if s \<noteq> [] \<and> is_space (hd s) then Some (dropWhile is_space s) else None)"

definition after_literal :: "string \<Rightarrow> string \<Rightarrow> string option" where
  "after_literal p s = (if startsWith s p then Some (drop (length p) s) else None)"

definition isDefinedLine :: "string \<Rightarrow> string \<Rightarrow> bool" where
  "isDefinedLine name result =
     (case Option.bind (Option.bind (Option.bind (Option.bind
             (after_literal name (dropWhile is_space result))
             after_spaces) (after_literal ''is'')) after_spaces) (after_literal ''defined'') of
        None \<Rightarrow> False
      | Some r \<Rightarrow>
          (let t = dropWhile is_space r
           in t = [] \<or> (startsWith t ''//'' \<and> \<not> list_ex is_line_terminator (drop 2 t))))"

text \<open>
  The single-letter case, \<open>(^|[^A-Za-z0-9_]|[0-9])(NAME)(?![A-Za-z0-9_])\<close> with the
  replacement \<open>prefix + macro.value\<close>: the letter at the very start, or after a character
  that is not a letter or underscore, and not followed by a word character.  \<open>start\<close>
  says that \<open>s\<close> is the whole string.
\<close>

definition not_word_next :: "string \<Rightarrow> bool" where
  "not_word_next s = (case s of [] \<Rightarrow> True | c # _ \<Rightarrow> \<not> is_word c)"

fun replaceLetter :: "char \<Rightarrow> string \<Rightarrow> bool \<Rightarrow> string \<Rightarrow> string \<times> bool" where
  "replaceLetter n v start [] = ([], False)"
| "replaceLetter n v start [c] =
     (if start \<and> c = n then (v, True) else ([c], False))"
| "replaceLetter n v start (c # d # cs) =
     (if start \<and> c = n \<and> not_word_next (d # cs)
      then (v @ fst (replaceLetter n v False (d # cs)), True)
      else if \<not> is_ident_start c \<and> d = n \<and> not_word_next cs
      then (c # v @ fst (replaceLetter n v False cs), True)
      else (case replaceLetter n v False (d # cs) of (r, matched) \<Rightarrow> (c # r, matched)))"

section \<open>Macro expansion: function-like macros\<close>

text \<open>
  \<open>\bNAME\s*\(\<close> tried at the start of \<open>s\<close> (\<open>prev\<close> the character before): the text
  after the opening parenthesis.
\<close>

definition call_match :: "string \<Rightarrow> char option \<Rightarrow> string \<Rightarrow> string option" where
  "call_match name prev s =
     (if name \<noteq> [] \<and> startsWith s name \<and> word_boundary prev (head_of name)
      then (case dropWhile is_space (drop (length name) s) of
              [] \<Rightarrow> None
            | c # r \<Rightarrow> if c = CHR ''('' then Some r else None)
      else None)"

text \<open>
  The argument loop \<open>while (i < result.length && parenDepth > 0)\<close>, started after the
  opening parenthesis with \<open>parenDepth = 1\<close>; \<open>nparams\<close> is \<open>macro.params.length\<close>.
  Returns \<open>args\<close> and the text from the final \<open>i\<close> on.
\<close>

fun parseArgs :: "nat \<Rightarrow> string list \<Rightarrow> string \<Rightarrow> nat \<Rightarrow> string \<Rightarrow> string list \<times> string" where
  "parseArgs nparams args currentArg parenDepth [] = (args, [])"
| "parseArgs nparams args currentArg parenDepth (c # cs) =
     (if parenDepth = 0 then (args, c # cs)
      else if c = CHR ''('' then parseArgs nparams args (currentArg @ [c]) (parenDepth + 1) cs
      else if c = CHR '')'' then
        (if parenDepth - 1 = 0 then
           parseArgs nparams
             (if trim currentArg \<noteq> [] \<or> length args > 0 \<or> nparams = 1
              then args @ [trim currentArg] else args)
             currentArg (parenDepth - 1) cs
         else parseArgs nparams args (currentArg @ [c]) (parenDepth - 1) cs)
      else if c = CHR '','' \<and> parenDepth = 1 then
        parseArgs nparams (args @ [trim currentArg]) [] parenDepth cs
      else parseArgs nparams args (currentArg @ [c]) parenDepth cs)"

lemma parseArgs_length:
  "length (snd (parseArgs nparams args currentArg parenDepth s)) \<le> length s"
  by (induction nparams args currentArg parenDepth s rule: parseArgs.induct)
     (auto simp: le_SucI)

text \<open>\<open>for (j = 0; j < macro.params.length; j++)
  expansion = expansion.replace(new RegExp(`\\b${macro.params[j]}\\b`, "g"), args[j])\<close>,
  for \<open>args\<close> as long as \<open>params\<close>.\<close>

fun substituteParams :: "string list \<Rightarrow> string list \<Rightarrow> string \<Rightarrow> string" where
  "substituteParams (p # ps) (a # as) expansion =
     substituteParams ps as (replaceWordString p a expansion)"
| "substituteParams ps as expansion = expansion"

text \<open>
  The \<open>exec\<close> loop over the invocations of one function-like macro: the new text from
  the current search position on, and \<open>functionMacroChanged\<close>.  After an invocation the
  search goes on behind its closing parenthesis (\<open>functionLikeRegex.lastIndex = i\<close>).
\<close>

function expandCalls ::
  "string \<Rightarrow> string list \<Rightarrow> string \<Rightarrow> char option \<Rightarrow> string \<Rightarrow> pp_error + (string \<times> bool)" where
  "expandCalls name params v prev [] = Inr ([], False)"
| "expandCalls name params v prev (c # cs) =
     (case call_match name prev (c # cs) of
        None \<Rightarrow>
          (case expandCalls name params v (Some c) cs of
             Inl e \<Rightarrow> Inl e
           | Inr (r, ch) \<Rightarrow> Inr (c # r, ch))
      | Some afterParen \<Rightarrow>
          (case parseArgs (length params) [] [] 1 afterParen of
             (args, rest) \<Rightarrow>
               if length args \<noteq> length params
               then Inl (ArityError name (length params) (length args))
               else (case expandCalls name params v (Some (CHR '')'')) rest of
                       Inl e \<Rightarrow> Inl e
                     | Inr (r, ch) \<Rightarrow> Inr (substituteParams params args v @ r, True))))"
  by pat_completeness auto
termination
proof (relation "measure (\<lambda>(name, params, v, prev, s). length s)", simp_all)
  fix name :: string and prev :: "char option" and c :: char and cs afterParen :: string
    and params x y
  assume m: "call_match name prev (c # cs) = Some afterParen"
    and p: "(x, y) = parseArgs (length params) [] [] (Suc 0) afterParen"
  have "length afterParen \<le> length cs"
  proof -
    from m have ne: "name \<noteq> []" and
      d: "dropWhile is_space (drop (length name) (c # cs)) = CHR ''('' # afterParen"
      by (auto simp: call_match_def split: if_splits list.splits)
    have "length (dropWhile is_space (drop (length name) (c # cs)))
          \<le> length (drop (length name) (c # cs))"
      by (rule length_dropWhile_le)
    also have "\<dots> \<le> length cs" using ne by (cases name) auto
    finally show ?thesis using d by simp
  qed
  moreover have "length y \<le> length afterParen"
    using parseArgs_length[of "length params" "[]" "[]" "Suc 0" afterParen] p
    by (metis snd_conv)
  ultimately show "length y < Suc (length cs)" by simp
qed

declare expandCalls.simps [simp del]

section \<open>Macro expansion: the fixpoint loop\<close>

text \<open>
  One run of \<open>for (const [name, macro] of sortedMacros)\<close> from the given \<open>result\<close> and
  \<open>changed\<close>; it ends at the end of the list or at a \<open>break\<close>, or with the arity error
  thrown.  \<open>!macro.params\<close> holds when \<open>params\<close> is absent.
\<close>

fun macroPass :: "macro_table \<Rightarrow> string \<Rightarrow> bool \<Rightarrow> pp_error + (string \<times> bool)" where
  "macroPass [] result changed = Inr (result, changed)"
| "macroPass ((name, m) # rest) result changed =
     (case mparams m of
        None \<Rightarrow>
          if isDefinedLine name result then macroPass rest result changed
          else if length name = 1 \<and> is_alpha (hd name) then
            (case replaceLetter (hd name) (mvalue m) True result of
               (newResult, ch) \<Rightarrow> macroPass rest newResult (changed \<or> ch))
          else
            (case replaceWordWith name (mvalue m) result of
               (newResult, ch) \<Rightarrow>
                 if newResult \<noteq> result then Inr (newResult, changed \<or> ch)
                 else macroPass rest result (changed \<or> ch))
      | Some params \<Rightarrow>
          (case expandCalls name params (mvalue m) None result of
             Inl e \<Rightarrow> Inl e
           | Inr (newResult, functionMacroChanged) \<Rightarrow>
               if functionMacroChanged then Inr (newResult, True)
               else macroPass rest result changed))"

text \<open>
  \<open>while (changed && iterationCount < MAX_ITERATIONS)\<close>: the first argument is the
  number of iterations still allowed, \<open>MAX_ITERATIONS - iterationCount\<close>.
\<close>

fun expandLoop :: "nat \<Rightarrow> macro_table \<Rightarrow> string \<Rightarrow> pp_error + string" where
  "expandLoop 0 sortedMacros result = Inr result"
| "expandLoop (Suc n) sortedMacros result =
     (case macroPass sortedMacros result False of
        Inl e \<Rightarrow> Inl e
      | Inr (result', changed) \<Rightarrow>
          if changed then expandLoop n sortedMacros result' else Inr result')"

definition MAX_ITERATIONS :: nat where
  "MAX_ITERATIONS = 100"

text \<open>\<open>Array.from(defines.entries()).sort((a, b) => b[0].length - a[0].length)\<close>: a stable
  sort, longer names first.\<close>

definition sortedMacros :: "macro_table \<Rightarrow> macro_table" where
  "sortedMacros defines = sort_key (\<lambda>e. - int (length (fst e))) defines"

definition expandMacros :: "string \<Rightarrow> macro_table \<Rightarrow> pp_error + string" where
  "expandMacros line defines =
     (case protectStrings line of
        (literals, protected) \<Rightarrow>
          (case expandLoop MAX_ITERATIONS (sortedMacros defines) protected of
             Inl e \<Rightarrow> Inl e
           | Inr result \<Rightarrow> Inr (restoreStrings 0 literals result)))"

section \<open>Expression evaluation\<close>

text \<open>
  \<open>/defined\s*\(\s*([a-zA-Z_][a-zA-Z0-9_]*)\s*\)/\<close> tried at the start of \<open>s\<close>: the name
  and the text after the match.  (There is no \<open>\b\<close> before \<open>defined\<close>.)
\<close>

definition identifier_at :: "string \<Rightarrow> (string \<times> string) option" where
  "identifier_at s =
     (case s of
        [] \<Rightarrow> None
      | c # _ \<Rightarrow> if is_ident_start c then Some (takeWhile is_word s, dropWhile is_word s)
                 else None)"

definition defined_match :: "string \<Rightarrow> (string \<times> string) option" where
  "defined_match s =
     (case after_literal ''defined'' s of
        None \<Rightarrow> None
      | Some r1 \<Rightarrow>
          (case after_literal ''('' (dropWhile is_space r1) of
             None \<Rightarrow> None
           | Some r2 \<Rightarrow>
               (case identifier_at (dropWhile is_space r2) of
                  None \<Rightarrow> None
                | Some (name, r3) \<Rightarrow>
                    (case after_literal '')'' (dropWhile is_space r3) of
                       None \<Rightarrow> None
                     | Some r4 \<Rightarrow> Some (name, r4)))))"

lemma identifier_at_length:
  "identifier_at s = Some (name, r) \<Longrightarrow> length r < length s"
proof -
  assume a: "identifier_at s = Some (name, r)"
  then obtain c cs where s: "s = c # cs" and c: "is_ident_start c" and r: "r = dropWhile is_word s"
    by (auto simp: identifier_at_def split: list.splits if_splits)
  have "is_word c" using c by (auto simp: is_word_def is_ident_start_def)
  then have "r = dropWhile is_word cs" using r s by simp
  then have "length r \<le> length cs" by (simp add: length_dropWhile_le)
  then show ?thesis using s by simp
qed

lemma startsWith_length: "startsWith s p \<Longrightarrow> length p \<le> length s"
proof -
  assume "startsWith s p"
  then have "length (take (length p) s) = length p"
    unfolding startsWith_def by simp
  then show ?thesis by simp
qed

lemma after_literal_length:
  "after_literal p s = Some r \<Longrightarrow> length r + length p = length s"
proof -
  assume a: "after_literal p s = Some r"
  then have sw: "startsWith s p" and r: "r = drop (length p) s"
    by (auto simp: after_literal_def split: if_splits)
  show ?thesis using startsWith_length[OF sw] r by simp
qed

lemma defined_match_length:
  assumes "defined_match s = Some (name, r)"
  shows "length r < length s"
proof -
  from assms obtain r1 r2 r3 where
    1: "after_literal ''defined'' s = Some r1" and
    2: "after_literal ''('' (dropWhile is_space r1) = Some r2" and
    3: "identifier_at (dropWhile is_space r2) = Some (name, r3)" and
    4: "after_literal '')'' (dropWhile is_space r3) = Some r"
    by (auto simp: defined_match_def split: option.splits)
  have "length r \<le> length (dropWhile is_space r3)" using after_literal_length[OF 4] by simp
  also have "\<dots> \<le> length r3" by (rule length_dropWhile_le)
  also have "\<dots> \<le> length (dropWhile is_space r2)" using identifier_at_length[OF 3] by simp
  also have "\<dots> \<le> length r2" by (rule length_dropWhile_le)
  also have "\<dots> \<le> length (dropWhile is_space r1)" using after_literal_length[OF 2] by simp
  also have "\<dots> \<le> length r1" by (rule length_dropWhile_le)
  also have "\<dots> < length s" using after_literal_length[OF 1] by simp
  finally show ?thesis .
qed

text \<open>\<open>expr.replace(/defined\s*\(\s*(...)\s*\)/g, (_, name) => defines.has(name) ? "1" : "0")\<close>\<close>

function replaceDefined :: "macro_table \<Rightarrow> string \<Rightarrow> string" where
  "replaceDefined defines [] = []"
| "replaceDefined defines (c # cs) =
     (case defined_match (c # cs) of
        None \<Rightarrow> c # replaceDefined defines cs
      | Some (name, rest) \<Rightarrow>
          (if map_of defines name \<noteq> None then ''1'' else ''0'') @ replaceDefined defines rest)"
  by pat_completeness auto
termination
  by (relation "measure (\<lambda>(defines, s). length s)") (auto dest: defined_match_length)

declare replaceDefined.simps [simp del]

text \<open>
  \<open>/\b([a-zA-Z_][a-zA-Z0-9_]*)\s*==\s*([a-zA-Z_][a-zA-Z0-9_]*)\b/\<close> tried at index \<open>p\<close> of
  \<open>expr\<close>: the index after the match, and the two names.
\<close>

definition equality_match_at :: "string \<Rightarrow> nat \<Rightarrow> (nat \<times> string \<times> string) option" where
  "equality_match_at expr p =
     (if word_boundary (if p = 0 then None else Some (expr ! (p - 1))) (head_of (drop p expr))
      then (case identifier_at (drop p expr) of
              None \<Rightarrow> None
            | Some (left, r1) \<Rightarrow>
                (case after_literal ''=='' (dropWhile is_space r1) of
                   None \<Rightarrow> None
                 | Some r2 \<Rightarrow>
                     (case identifier_at (dropWhile is_space r2) of
                        None \<Rightarrow> None
                      | Some (right, r3) \<Rightarrow> Some (length expr - length r3, left, right))))
      else None)"

text \<open>\<open>equalityRegex.exec(expr)\<close> with \<open>lastIndex = p\<close>: the first index from \<open>p\<close> on
  where the expression matches.\<close>

function findEquality :: "string \<Rightarrow> nat \<Rightarrow> (nat \<times> nat \<times> string \<times> string) option" where
  "findEquality expr p =
     (if length expr \<le> p then None
      else (case equality_match_at expr p of
              None \<Rightarrow> findEquality expr (p + 1)
            | Some (e, left, right) \<Rightarrow> Some (p, e, left, right)))"
  by pat_completeness auto
termination
  by (relation "measure (\<lambda>(expr, p). length expr - p)") auto

declare findEquality.simps [simp del]

lemma equality_match_at_bounds:
  assumes "equality_match_at expr p = Some (e, left, right)" "p < length expr"
  shows "p < e \<and> e \<le> length expr"
proof -
  from assms obtain r1 r2 r3 where
    1: "identifier_at (drop p expr) = Some (left, r1)" and
    2: "after_literal ''=='' (dropWhile is_space r1) = Some r2" and
    3: "identifier_at (dropWhile is_space r2) = Some (right, r3)" and
    e: "e = length expr - length r3"
    by (auto simp: equality_match_at_def split: option.splits if_splits)
  have "length r3 \<le> length (dropWhile is_space r2)" using identifier_at_length[OF 3] by simp
  also have "\<dots> \<le> length r2" by (rule length_dropWhile_le)
  also have "\<dots> \<le> length (dropWhile is_space r1)" using after_literal_length[OF 2] by simp
  also have "\<dots> \<le> length r1" by (rule length_dropWhile_le)
  also have "\<dots> < length (drop p expr)" by (rule identifier_at_length[OF 1])
  finally have "length r3 < length expr - p" by simp
  then show ?thesis using e assms(2) by simp
qed

lemma findEquality_bounds:
  "findEquality expr p = Some (s, e, left, right) \<Longrightarrow> p \<le> s \<and> s < e \<and> e \<le> length expr"
proof (induction expr p rule: findEquality.induct)
  case (1 expr p)
  show ?case
  proof (cases "length expr \<le> p")
    case True
    then show ?thesis using "1.prems" by (simp add: findEquality.simps)
  next
    case False
    show ?thesis
    proof (cases "equality_match_at expr p")
      case None
      then have "findEquality expr (p + 1) = Some (s, e, left, right)"
        using "1.prems" False by (simp add: findEquality.simps)
      then show ?thesis using "1.IH"[OF False None] by simp
    next
      case (Some r)
      then have "r = (e, left, right)" and "s = p"
        using "1.prems" False by (auto simp: findEquality.simps split: prod.splits)
      then show ?thesis using equality_match_at_bounds[of expr p e left right] Some False
        by simp
    qed
  qed
qed

lemma getSubstitution_plain: "CHR ''$'' \<notin> set r \<Longrightarrow> getSubstitution m b a r = r"
  by (induction m b a r rule: getSubstitution.induct) auto

lemma indexOf_bound: "indexOf s p = Some i \<Longrightarrow> i + length p \<le> length s"
proof (induction s p arbitrary: i rule: indexOf.induct)
  case (1 p)
  then show ?case by (simp split: if_splits)
next
  case (2 c cs p)
  show ?case
  proof (cases "startsWith (c # cs) p")
    case True
    then have "length p \<le> length (c # cs)"
      by (rule startsWith_length)
    then show ?thesis using True "2.prems" by simp
  next
    case False
    then obtain j where "indexOf cs p = Some j" "i = Suc j"
      using "2.prems" by auto
    then show ?thesis using "2.IH"[OF False] by simp
  qed
qed

lemma replaceFirst_one_length:
  assumes "pattern \<noteq> []"
  shows "length (replaceFirst expr pattern ''1'') \<le> length expr"
proof (cases "indexOf expr pattern")
  case None
  then show ?thesis by (simp add: replaceFirst_def)
next
  case (Some i)
  have b: "i + length pattern \<le> length expr" by (rule indexOf_bound[OF Some])
  have pos: "0 < length pattern" using assms by simp
  have "length (replaceFirst expr pattern ''1'')
        = length (take i expr) + 1 + length (drop (i + length pattern) expr)"
    using Some by (simp add: replaceFirst_def)
  also have "\<dots> = i + 1 + (length expr - (i + length pattern))"
    using b by (simp add: min_def) linarith
  also have "\<dots> \<le> length expr" using b pos by linarith
  finally show ?thesis .
qed

text \<open>
  The special case for a comparison of names: \<open>while ((match = equalityRegex.exec(expr))
  !== null)\<close> with \<open>expr = expr.replace(fullMatch, "1")\<close> in three cases.  \<open>lastIndex\<close> is
  the index after the last match, also when \<open>expr\<close> has been replaced meanwhile.
\<close>

definition object_like :: "macro option \<Rightarrow> bool" where
  "object_like m = (case m of None \<Rightarrow> False | Some x \<Rightarrow> mparams x = None)"

definition equalityRewrites :: "macro_table \<Rightarrow> string \<Rightarrow> string \<Rightarrow> bool" where
  "equalityRewrites defines left right =
     (let leftMacro = map_of defines left; rightMacro = map_of defines right
      in (object_like leftMacro \<and> mvalue (the leftMacro) = right \<and> rightMacro = None)
         \<or> (object_like rightMacro \<and> mvalue (the rightMacro) = left \<and> leftMacro = None)
         \<or> (object_like leftMacro \<and> object_like rightMacro
             \<and> mvalue (the leftMacro) = mvalue (the rightMacro)))"

function equalityLoop :: "macro_table \<Rightarrow> string \<Rightarrow> nat \<Rightarrow> string" where
  "equalityLoop defines expr lastIndex =
     (case findEquality expr lastIndex of
        None \<Rightarrow> expr
      | Some (s, e, left, right) \<Rightarrow>
          if equalityRewrites defines left right
          then equalityLoop defines (replaceFirst expr (take (e - s) (drop s expr)) ''1'') e
          else equalityLoop defines expr e)"
  by pat_completeness auto
termination
proof (relation "measure (\<lambda>(defines, expr, lastIndex). length expr - lastIndex)", goal_cases)
  case 1
  show ?case by simp
next
  case (2 dfs expr lastIndex x2 s y e ya left right)
  then have f: "findEquality expr lastIndex = Some (s, e, left, right)" by simp
  have b: "lastIndex \<le> s \<and> s < e \<and> e \<le> length expr"
    by (rule findEquality_bounds[OF f])
  then have "take (e - s) (drop s expr) \<noteq> []" by auto
  then have "length (replaceFirst expr (take (e - s) (drop s expr)) ''1'') \<le> length expr"
    by (rule replaceFirst_one_length)
  then have "length (replaceFirst expr (take (e - s) (drop s expr)) ''1'') - e
             < length expr - lastIndex"
    using b by linarith
  then show ?case by simp
next
  case (3 dfs expr lastIndex x2 s y e ya left right)
  then have f: "findEquality expr lastIndex = Some (s, e, left, right)" by simp
  have "lastIndex \<le> s \<and> s < e \<and> e \<le> length expr"
    by (rule findEquality_bounds[OF f])
  then have "length expr - e < length expr - lastIndex" by linarith
  then show ?case by simp
qed

declare equalityLoop.simps [simp del]

text \<open>
  \<open>expr.replace(/\b([a-zA-Z_][a-zA-Z0-9_]*)\b/g, ...)\<close>: an identifier that starts at a
  word boundary becomes the value of its object-like macro (\<open>macro.value || "0"\<close>), and
  \<open>0\<close> otherwise; the replacement is not scanned again.
\<close>

definition identifierValue :: "macro_table \<Rightarrow> string \<Rightarrow> string" where
  "identifierValue defines identifier =
     (case map_of defines identifier of
        None \<Rightarrow> ''0''
      | Some m \<Rightarrow> if mparams m = None then (if mvalue m = [] then ''0'' else mvalue m)
                  else ''0'')"

function replaceIdentifiersExpr :: "macro_table \<Rightarrow> char option \<Rightarrow> string \<Rightarrow> string" where
  "replaceIdentifiersExpr defines prev [] = []"
| "replaceIdentifiersExpr defines prev (c # cs) =
     (if is_ident_start c \<and> word_boundary prev (Some c)
      then identifierValue defines (takeWhile is_word (c # cs))
           @ replaceIdentifiersExpr defines (Some (last (takeWhile is_word (c # cs))))
               (dropWhile is_word (c # cs))
      else c # replaceIdentifiersExpr defines (Some c) cs)"
  by pat_completeness auto
termination
proof (relation "measure (\<lambda>(defines, prev, s). length s)", goal_cases)
  case 1
  show ?case by simp
next
  case (2 dfs prev c cs)
  then have "is_word c" by (auto simp: is_word_def is_ident_start_def)
  then have "length (dropWhile is_word (c # cs)) < Suc (length cs)"
    by (simp add: length_dropWhile_le less_Suc_eq_le)
  then show ?case by simp
next
  case 3
  show ?case by simp
qed

declare replaceIdentifiersExpr.simps [simp del]

text \<open>
  \<open>expr.replace(/(\s*)(!=|==|&&|\|\||!)(\s*)/g, ...)\<close>: \<open>!=\<close> becomes \<open>!==\<close> and \<open>==\<close>
  becomes \<open>===\<close>, the white space around is kept.  \<open>operator_at\<close> gives the replacement
  of the operator at the start of \<open>s\<close> and the text after it.
\<close>

definition operator_at :: "string \<Rightarrow> (string \<times> string) option" where
  "operator_at s =
     (if startsWith s ''!='' then Some (''!=='', drop 2 s)
      else if startsWith s ''=='' then Some (''==='', drop 2 s)
      else if startsWith s ''&&'' then Some (''&&'', drop 2 s)
      else if startsWith s ''||'' then Some (''||'', drop 2 s)
      else if startsWith s ''!'' then Some (''!'', drop 1 s)
      else None)"

lemma operator_at_length: "operator_at s = Some (op, r) \<Longrightarrow> length r < length s"
  by (cases s) (auto simp: operator_at_def startsWith_def split: if_splits)

function replaceOperators :: "string \<Rightarrow> string" where
  "replaceOperators [] = []"
| "replaceOperators (c # cs) =
     (case operator_at (dropWhile is_space (c # cs)) of
        None \<Rightarrow> c # replaceOperators cs
      | Some (op, r) \<Rightarrow>
          takeWhile is_space (c # cs) @ op @ takeWhile is_space r
          @ replaceOperators (dropWhile is_space r))"
  by pat_completeness auto
termination
proof (relation "measure length", goal_cases)
  case 1
  show ?case by simp
next
  case 2
  show ?case by simp
next
  case (3 c cs x2 op r)
  then have "operator_at (dropWhile is_space (c # cs)) = Some (op, r)" by simp
  then have "length r < length (dropWhile is_space (c # cs))"
    by (rule operator_at_length)
  also have "\<dots> \<le> length (c # cs)" by (rule length_dropWhile_le)
  finally have "length r < Suc (length cs)" by simp
  moreover have "length (dropWhile is_space r) \<le> length r" by (rule length_dropWhile_le)
  ultimately have "length (dropWhile is_space r) < Suc (length cs)" by simp
  then show ?case by simp
qed

declare replaceOperators.simps [simp del]

text \<open>\<open>/^\s*\d+\s*$/.test(expr)\<close>, and \<open>parseInt(expr.trim(), 10) !== 0\<close> for such an
  \<open>expr\<close>.\<close>

definition isStandaloneNumber :: "string \<Rightarrow> bool" where
  "isStandaloneNumber expr =
     (let t = dropWhile is_space expr
      in takeWhile is_digit t \<noteq> [] \<and> list_all is_space (dropWhile is_digit t))"

definition numberIsNonZero :: "string \<Rightarrow> bool" where
  "numberIsNonZero expr = list_ex (\<lambda>c. c \<noteq> CHR ''0'') (takeWhile is_digit (trim expr))"

text \<open>
  The host's \<open>eval\<close> is a parameter.  It is called inside \<open>evaluateExpression\<close>, where
  the program text can read and change the macro table through the variable \<open>defines\<close>:
  the parameter is given the text and the table, and returns how the evaluation ends (it
  completes, with a truthy or falsy value, or it throws) together with the table it
  leaves.  The \<open>catch\<close> clause reads \<open>e.message\<close>, which is itself a \<open>TypeError\<close> when the
  thrown value is \<open>null\<close> or \<open>undefined\<close>.  Other effects of the evaluated text on the
  host, and an \<open>eval\<close> that does not return, are outside this model.
\<close>

datatype thrown_value = ThrownNullish | ThrownOther

datatype eval_outcome = Completes bool | Throws thrown_value

type_synonym host_eval = "string \<Rightarrow> macro_table \<Rightarrow> eval_outcome \<times> macro_table"

text \<open>The text that \<open>evaluateExpression\<close> has built when it reaches the number test.\<close>

definition prepareExpression :: "string \<Rightarrow> macro_table \<Rightarrow> string" where
  "prepareExpression expr defines =
     replaceOperators
       (replaceIdentifiersExpr defines None
          (equalityLoop defines (replaceDefined defines expr) 0))"

text \<open>\<open>evaluateExpression\<close>: the value returned or the error thrown, and the macro table
  after the call.\<close>

definition evaluateExpression ::
  "host_eval \<Rightarrow> string \<Rightarrow> macro_table \<Rightarrow> (pp_error + bool) \<times> macro_table" where
  "evaluateExpression ev expr dfs =
     (let e = prepareExpression expr dfs
      in if isStandaloneNumber e then (Inr (numberIsNonZero e), dfs)
         else (case ev e dfs of
                 (Completes b, dfs') \<Rightarrow> (Inr b, dfs')
               | (Throws ThrownOther, dfs') \<Rightarrow> (Inr False, dfs')
               | (Throws ThrownNullish, dfs') \<Rightarrow> (Inl HandlerTypeError, dfs')))"

section \<open>Conditional compilation\<close>

text \<open>\<open>type ConditionalState = { including: boolean; hasBeenTrue: boolean; hasElse: boolean }\<close>\<close>

record conditional_state =
  "including" :: bool
  hasBeenTrue :: bool
  hasElse :: bool

text \<open>
  The state of \<open>processConditionals\<close>: the conditional stack with its top at the head of
  the list (so \<open>conditionalStack[length - 1]\<close> is the head and \<open>conditionalStack[length - 2]\<close>
  the element after it), the macro table, which the caller passes in and the function
  updates, and the result lines.
\<close>

record pp_state =
  conditionalStack :: "conditional_state list"
  "defines" :: macro_table
  resultLines :: "string list"

definition isCurrentlyIncluding :: "pp_state \<Rightarrow> bool" where
  "isCurrentlyIncluding st = list_all including (conditionalStack st)"

text \<open>
  The directive patterns: \<open>/^#word\s+/\<close> gives the length of its match, and
  \<open>/^#word(?:\s|$)/\<close> only says whether it matches.
\<close>

definition directiveMatch :: "string \<Rightarrow> string \<Rightarrow> nat option" where
  "directiveMatch word s =
     (if startsWith s word \<and> takeWhile is_space (drop (length word) s) \<noteq> []
      then Some (length word + length (takeWhile is_space (drop (length word) s)))
      else None)"

definition directiveMatchEnd :: "string \<Rightarrow> string \<Rightarrow> bool" where
  "directiveMatchEnd word s =
     (startsWith s word \<and> (drop (length word) s = [] \<or> is_space (hd (drop (length word) s))))"

text \<open>\<open>s.split(",").map(param => param.trim())\<close>\<close>

fun splitComma :: "string \<Rightarrow> string \<Rightarrow> string list" where
  "splitComma cur [] = [cur]"
| "splitComma cur (c # cs) =
     (if c = CHR '','' then cur # splitComma [] cs else splitComma (cur @ [c]) cs)"

text \<open>
  \<open>[a-zA-Z_][a-zA-Z0-9_]*(?:\s*,\s*[a-zA-Z_][a-zA-Z0-9_]*)*\<close> from the end of its first
  identifier on: the text after the last identifier of the list.
\<close>

function paramListRest :: "string \<Rightarrow> string" where
  "paramListRest s =
     (case after_literal '','' (dropWhile is_space s) of
        None \<Rightarrow> s
      | Some r \<Rightarrow>
          (case identifier_at (dropWhile is_space r) of
             None \<Rightarrow> s
           | Some (p, r') \<Rightarrow> paramListRest r'))"
  by pat_completeness auto
termination
proof (relation "measure length", goal_cases)
  case 1
  show ?case by simp
next
  case (2 s r x2 p r')
  have "identifier_at (dropWhile is_space r) = Some (p, r')"
    using 2 by simp
  then have "length r' < length (dropWhile is_space r)"
    by (rule identifier_at_length)
  also have "\<dots> \<le> length r" by (rule length_dropWhile_le)
  also have "\<dots> \<le> length (dropWhile is_space s)"
    using after_literal_length[of "'',''" "dropWhile is_space s" r] 2 by simp
  also have "\<dots> \<le> length s" by (rule length_dropWhile_le)
  finally show ?case by simp
qed

declare paramListRest.simps [simp del]

text \<open>
  \<open>/^#define\s+(NAME)\s*\(\s*(PARAMS)\s*\)\s*(.*)$/\<close> on the directive line: the name, the
  text of the parameter list and the value.  \<open>.\<close> matches no line terminator, so the
  text after the closing parenthesis and the white space must hold none.
\<close>

definition functionLikeMatch :: "string \<Rightarrow> (string \<times> string \<times> string) option" where
  "functionLikeMatch directiveLine =
     (case directiveMatch ''#define'' directiveLine of
        None \<Rightarrow> None
      | Some n \<Rightarrow>
          (case identifier_at (drop n directiveLine) of
             None \<Rightarrow> None
           | Some (name, r1) \<Rightarrow>
               (case after_literal ''('' (dropWhile is_space r1) of
                  None \<Rightarrow> None
                | Some r2 \<Rightarrow>
                    (case identifier_at (dropWhile is_space r2) of
                       None \<Rightarrow> None
                     | Some (p1, r3) \<Rightarrow>
                         (let r4 = paramListRest r3;
                              paramsStr = take (length (dropWhile is_space r2) - length r4)
                                            (dropWhile is_space r2)
                          in case after_literal '')'' (dropWhile is_space r4) of
                               None \<Rightarrow> None
                             | Some r5 \<Rightarrow>
                                 if list_ex is_line_terminator (dropWhile is_space r5) then None
                                 else Some (name, paramsStr, dropWhile is_space r5))))))"

text \<open>\<open>/^#define\s+([a-zA-Z_][a-zA-Z0-9_]*)/\<close>: the name.\<close>

definition macroNameMatch :: "string \<Rightarrow> string option" where
  "macroNameMatch directiveLine =
     (case directiveMatch ''#define'' directiveLine of
        None \<Rightarrow> None
      | Some n \<Rightarrow> map_option fst (identifier_at (drop n directiveLine)))"

text \<open>\<open>/^#undef\s+([a-zA-Z_][a-zA-Z0-9_]*)$/\<close>: the name.\<close>

definition undefNameMatch :: "string \<Rightarrow> string option" where
  "undefNameMatch directiveLine =
     (case directiveMatch ''#undef'' directiveLine of
        None \<Rightarrow> None
      | Some n \<Rightarrow>
          (case identifier_at (drop n directiveLine) of
             None \<Rightarrow> None
           | Some (name, r) \<Rightarrow> if r = [] then Some name else None))"

text \<open>\<open>defines.delete(name)\<close>\<close>

definition map_delete :: "('k \<times> 'v) list \<Rightarrow> 'k \<Rightarrow> ('k \<times> 'v) list" where
  "map_delete m k = filter (\<lambda>e. fst e \<noteq> k) m"

text \<open>The body of \<open>if (defineMatch)\<close>, for a state in which \<open>isCurrentlyIncluding()\<close>
  holds.\<close>

definition processDefine :: "string \<Rightarrow> pp_state \<Rightarrow> pp_error + pp_state" where
  "processDefine directiveLine st =
     (case functionLikeMatch directiveLine of
        Some (name, paramsStr, v) \<Rightarrow>
          Inr (st\<lparr>defines := map_set (defines st) name
                    \<lparr>mvalue = v, mparams = Some (map trim (splitComma [] paramsStr))\<rparr>\<rparr>)
      | None \<Rightarrow>
          (case macroNameMatch directiveLine of
             None \<Rightarrow> Inr st
           | Some name \<Rightarrow>
               (let valueStartIndex = the (indexOf directiveLine name) + length name;
                    v = trim (drop valueStartIndex directiveLine)
                in if v \<noteq> [] then
                     (case expandMacros v (defines st) of
                        Inl e \<Rightarrow> Inl e
                      | Inr expandedValue \<Rightarrow>
                          Inr (st\<lparr>defines := map_set (defines st) name
                                    \<lparr>mvalue = expandedValue, mparams = None\<rparr>\<rparr>))
                   else Inr (st\<lparr>defines := map_set (defines st) name
                                  \<lparr>mvalue = [], mparams = None\<rparr>\<rparr>))))"

text \<open>The push of \<open>#if\<close>, \<open>#ifdef\<close> and \<open>#ifndef\<close>.\<close>

definition pushConditional :: "bool \<Rightarrow> pp_state \<Rightarrow> pp_state" where
  "pushConditional result st =
     st\<lparr>conditionalStack :=
          \<lparr>including = result, hasBeenTrue = result, hasElse = False\<rparr> # conditionalStack st\<rparr>"

text \<open>\<open>conditionalStack.length > 1 ? conditionalStack[length - 2].including : true\<close>\<close>

definition parentIncluding :: "conditional_state list \<Rightarrow> bool" where
  "parentIncluding stack = (case stack of _ # parent # _ \<Rightarrow> including parent | _ \<Rightarrow> True)"

text \<open>The body of \<open>if (elifMatch)\<close>; \<open>n\<close> is \<open>elifMatch[0].length\<close>.\<close>

definition processElif :: "host_eval \<Rightarrow> string \<Rightarrow> nat \<Rightarrow> pp_state \<Rightarrow> pp_error + pp_state" where
  "processElif ev directiveLine n st =
     (case conditionalStack st of
        [] \<Rightarrow> Inl UnexpectedElif
      | currentState # below \<Rightarrow>
          if hasElse currentState then Inl ElifAfterElse
          else if \<not> hasBeenTrue currentState then
            (if parentIncluding (conditionalStack st) then
               (case evaluateExpression ev (trim (drop n directiveLine)) (defines st) of
                  (Inl e, dfs') \<Rightarrow> Inl e
                | (Inr result, dfs') \<Rightarrow>
                    Inr (st\<lparr>conditionalStack :=
                              (if result
                               then currentState\<lparr>including := result, hasBeenTrue := True\<rparr>
                               else currentState\<lparr>including := result\<rparr>) # below,
                            defines := dfs'\<rparr>))
             else Inr (st\<lparr>conditionalStack := currentState\<lparr>including := False\<rparr> # below\<rparr>))
          else Inr (st\<lparr>conditionalStack := currentState\<lparr>including := False\<rparr> # below\<rparr>))"

text \<open>The body of \<open>if (elseMatch)\<close>.\<close>

definition processElse :: "pp_state \<Rightarrow> pp_error + pp_state" where
  "processElse st =
     (case conditionalStack st of
        [] \<Rightarrow> Inl UnexpectedElse
      | currentState # below \<Rightarrow>
          if hasElse currentState then Inl MultipleElse
          else if \<not> hasBeenTrue currentState then
            Inr (st\<lparr>conditionalStack :=
                      currentState\<lparr>hasElse := True,
                                    including := parentIncluding (conditionalStack st),
                                    hasBeenTrue := True\<rparr> # below\<rparr>)
          else Inr (st\<lparr>conditionalStack :=
                         currentState\<lparr>hasElse := True, including := False\<rparr> # below\<rparr>))"

text \<open>The branch for a line whose trimmed text starts with \<open>#\<close>; \<open>line\<close> is the line as
  it came, \<open>trimmedLine\<close> its trimmed text.\<close>

definition stripComment :: "string \<Rightarrow> string" where
  "stripComment trimmedLine =
     (case indexOf trimmedLine ''//'' of
        None \<Rightarrow> trimmedLine
      | Some commentIndex \<Rightarrow> trim (take commentIndex trimmedLine))"

definition processDirective :: "host_eval \<Rightarrow> string \<Rightarrow> string \<Rightarrow> pp_state \<Rightarrow> pp_error + pp_state" where
  "processDirective ev line trimmedLine st =
     (let directiveLine = stripComment trimmedLine
      in if directiveMatch ''#define'' directiveLine \<noteq> None then
           (if isCurrentlyIncluding st then processDefine directiveLine st else Inr st)
         else if directiveMatch ''#undef'' directiveLine \<noteq> None then
           (if isCurrentlyIncluding st then
              (case undefNameMatch directiveLine of
                 None \<Rightarrow> Inr st
               | Some name \<Rightarrow> Inr (st\<lparr>defines := map_delete (defines st) name\<rparr>))
            else Inr st)
         else if directiveMatch ''#if'' directiveLine \<noteq> None then
           (if isCurrentlyIncluding st then
              (case evaluateExpression ev
                      (trim (drop (the (directiveMatch ''#if'' directiveLine)) directiveLine))
                      (defines st) of
                 (Inl e, dfs') \<Rightarrow> Inl e
               | (Inr result, dfs') \<Rightarrow> Inr (pushConditional result (st\<lparr>defines := dfs'\<rparr>)))
            else Inr (pushConditional False st))
         else if directiveMatch ''#ifdef'' directiveLine \<noteq> None then
           Inr (pushConditional
                  (if isCurrentlyIncluding st
                   then map_of (defines st)
                          (trim (drop (the (directiveMatch ''#ifdef'' directiveLine)) directiveLine))
                        \<noteq> None
                   else False) st)
         else if directiveMatch ''#ifndef'' directiveLine \<noteq> None then
           Inr (pushConditional
                  (if isCurrentlyIncluding st
                   then map_of (defines st)
                          (trim (drop (the (directiveMatch ''#ifndef'' directiveLine)) directiveLine))
                        = None
                   else False) st)
         else if directiveMatch ''#elif'' directiveLine \<noteq> None then
           processElif ev directiveLine (the (directiveMatch ''#elif'' directiveLine)) st
         else if directiveMatchEnd ''#else'' directiveLine then processElse st
         else if directiveMatchEnd ''#endif'' directiveLine then
           (case conditionalStack st of
              [] \<Rightarrow> Inl UnexpectedEndif
            | _ # below \<Rightarrow> Inr (st\<lparr>conditionalStack := below\<rparr>))
         else if isCurrentlyIncluding st then Inr (st\<lparr>resultLines := resultLines st @ [line]\<rparr>)
         else Inr st)"

text \<open>One iteration of the loop over \<open>lines\<close>.\<close>

definition processLine :: "host_eval \<Rightarrow> string \<Rightarrow> pp_state \<Rightarrow> pp_error + pp_state" where
  "processLine ev line st =
     (if startsWith (trim line) ''#'' then processDirective ev line (trim line) st
      else if isCurrentlyIncluding st then
        (case expandMacros line (defines st) of
           Inl e \<Rightarrow> Inl e
         | Inr expandedLine \<Rightarrow> Inr (st\<lparr>resultLines := resultLines st @ [expandedLine]\<rparr>))
      else Inr st)"

fun processLines :: "host_eval \<Rightarrow> string list \<Rightarrow> pp_state \<Rightarrow> pp_error + pp_state" where
  "processLines ev [] st = Inr st"
| "processLines ev (line # lines) st =
     (case processLine ev line st of
        Inl e \<Rightarrow> Inl e
      | Inr st' \<Rightarrow> processLines ev lines st')"

text \<open>\<open>processConditionals(lines, defines)\<close>: the result lines, or the error thrown.\<close>

definition processConditionals :: "host_eval \<Rightarrow> string list \<Rightarrow> macro_table \<Rightarrow> pp_error + string list" where
  "processConditionals ev lines dfs =
     (case processLines ev lines \<lparr>conditionalStack = [], defines = dfs, resultLines = []\<rparr> of
        Inl e \<Rightarrow> Inl e
      | Inr st \<Rightarrow> if conditionalStack st \<noteq> [] then Inl UnmatchedIf else Inr (resultLines st))"

section \<open>Directive lines\<close>

text \<open>
  A condition as it is written after \<open>#if\<close> or \<open>#elif\<close>: not empty, no white space at
  either end, and no \<open>//\<close>, which would start a comment.
\<close>

definition condition_text :: "string \<Rightarrow> bool" where
  "condition_text c =
     (c \<noteq> [] \<and> \<not> is_space (hd c) \<and> \<not> is_space (last c) \<and> indexOf c ''//'' = None)"

text \<open>
  \<open>directive_with kw c l\<close>: the line \<open>l\<close> is the keyword \<open>kw\<close>, white space, and the
  condition \<open>c\<close>, with white space allowed before the keyword and after the condition.
\<close>

definition directive_with :: "string \<Rightarrow> string \<Rightarrow> string \<Rightarrow> bool" where
  "directive_with kw c l =
     (condition_text c
      \<and> startsWith (dropWhile is_space l) kw
      \<and> takeWhile is_space (drop (length kw) (dropWhile is_space l)) \<noteq> []
      \<and> trim (drop (length kw) (dropWhile is_space l)) = c)"

text \<open>An evaluator that ends the same way on every text and leaves the macro table as it
  is; it stands for the host where the text is not evaluated or is a constant.\<close>

definition constant_eval :: "eval_outcome \<Rightarrow> host_eval" where
  "constant_eval r s dfs = (r, dfs)"

section \<open>The arguments of an invocation\<close>






section \<open>Swizzle-shaped names are never renamed\<close>

lemma fold_union_step:
  assumes "\<And>c r. c \<in> set cs \<Longrightarrow> G c r = r \<union> A c"
  shows "fold G cs r = r \<union> (\<Union>c\<in>set cs. A c)"
  using assms by (induction cs arbitrary: r) auto

lemma words_split:
  assumes "length p < len"
  shows "(\<Union>c\<in>set cs. {(p @ [c]) @ s |s. length s = len - length (p @ [c]) \<and> set s \<subseteq> set cs})
         = {p @ s |s. length s = len - length p \<and> set s \<subseteq> set cs}" (is "?L = ?R")
proof
  show "?L \<subseteq> ?R"
  proof
    fix w assume "w \<in> ?L"
    then obtain c s where c: "c \<in> set cs" and w: "w = (p @ [c]) @ s"
      and s: "length s = len - length (p @ [c])" "set s \<subseteq> set cs" by blast
    have "w = p @ (c # s)" using w by simp
    moreover have "length (c # s) = len - length p" using s assms by simp
    moreover have "set (c # s) \<subseteq> set cs" using c s by simp
    ultimately show "w \<in> ?R" by blast
  qed
  show "?R \<subseteq> ?L"
  proof
    fix w assume "w \<in> ?R"
    then obtain s where w: "w = p @ s" and s: "length s = len - length p" "set s \<subseteq> set cs" by blast
    from s assms obtain c s' where cs: "s = c # s'" by (cases s) auto
    have "c \<in> set cs" using s cs by simp
    moreover have "w = (p @ [c]) @ s'" using w cs by simp
    moreover have "length s' = len - length (p @ [c])" using s cs by simp
    moreover have "set s' \<subseteq> set cs" using s cs by simp
    ultimately show "w \<in> ?L" by blast
  qed
qed

lemma generateCombinations_eq:
  "length prefix \<le> len \<Longrightarrow>
   generateCombinations components len prefix result
   = result \<union> {prefix @ s |s. length s = len - length prefix \<and> set s \<subseteq> set components}"
proof (induction components len prefix result rule: generateCombinations.induct)
  case (1 components len prefix result)
  show ?case
  proof (cases "length prefix = len")
    case True
    then show ?thesis by (subst generateCombinations.simps) auto
  next
    case False
    with 1(2) have lt: "length prefix < len" by simp
    have step: "\<And>c r. c \<in> set components \<Longrightarrow>
        generateCombinations components len (prefix @ [c]) r
        = r \<union> {(prefix @ [c]) @ s |s. length s = len - length (prefix @ [c]) \<and> set s \<subseteq> set components}"
      using 1(1) False lt by simp
    have "generateCombinations components len prefix result
          = fold (\<lambda>c r. generateCombinations components len (prefix @ [c]) r) components result"
      using False lt by (subst generateCombinations.simps) simp
    also have "\<dots> = result \<union> (\<Union>c\<in>set components.
          {(prefix @ [c]) @ s |s. length s = len - length (prefix @ [c]) \<and> set s \<subseteq> set components})"
      by (rule fold_union_step) (rule step)
    also have "\<dots> = result \<union> {prefix @ s |s. length s = len - length prefix \<and> set s \<subseteq> set components}"
      by (simp only: words_split[OF lt])
    finally show ?thesis .
  qed
qed

lemma swizzles_iff:
  "s \<in> swizzles \<longleftrightarrow> 1 \<le> length s \<and> length s \<le> 4 \<and> set s \<subseteq> set swizzle_components"
proof -
  have "swizzles = (\<Union>n\<in>{1,2,3,4}. {s. length s = n \<and> set s \<subseteq> set swizzle_components})"
    by (auto simp: swizzles_def generateSwizzles_def generateCombinations_eq)
  then have "s \<in> swizzles \<longleftrightarrow> (length s = 1 \<or> length s = 2 \<or> length s = 3 \<or> length s = 4) \<and> set s \<subseteq> set swizzle_components"
    by simp blast
  then show ?thesis by (simp only:) arith
qed

lemma swizzles_has_char: "[c] \<in> swizzles \<longleftrightarrow> c \<in> set swizzle_components"
  by (simp add: swizzles_iff)

lemma isPotentialSwizzle_iff:
  "isPotentialSwizzle name \<longleftrightarrow> 1 \<le> length name \<and> length name \<le> 4 \<and> set name \<subseteq> set ''xyzwrgba''"
proof -
  define P where "P = (set name \<subseteq> set ''xyzwrgba'')"
  have "list_all (\<lambda>char. [char] \<in> swizzles) name \<longleftrightarrow> set name \<subseteq> set swizzle_components"
    unfolding swizzles_has_char list_all_iff by blast
  then have "list_all (\<lambda>char. [char] \<in> swizzles) name \<longleftrightarrow> P"
    unfolding P_def swizzle_components_def .
  then have "isPotentialSwizzle name \<longleftrightarrow> 1 \<le> length name \<and> length name \<le> 4 \<and> P"
    unfolding isPotentialSwizzle_def by (cases name) auto
  then show ?thesis unfolding P_def .
qed

lemma isPotentialSwizzle_swizzles: "isPotentialSwizzle name \<longleftrightarrow> name \<in> swizzles"
  by (simp only: isPotentialSwizzle_iff swizzles_iff swizzle_components_def)

definition no_swizzle_keys :: "name_map \<Rightarrow> bool" where
  "no_swizzle_keys m = (\<forall>k. isPotentialSwizzle k \<longrightarrow> map_of m k = None)"

lemma no_swizzle_keys_append:
  assumes "no_swizzle_keys m" "\<not> isPotentialSwizzle n"
  shows "no_swizzle_keys (m @ [(n, v)])"
  unfolding no_swizzle_keys_def
proof (intro allI impI)
  fix k assume k: "isPotentialSwizzle k"
  then have "k \<noteq> n" using assms(2) by blast
  moreover have "map_of m k = None" using assms(1) k unfolding no_swizzle_keys_def by blast
  ultimately show "map_of (m @ [(n, v)]) k = None"
    by (simp add: map_of_append map_add_def)
qed

lemma registerMember_keys:
  assumes "no_swizzle_keys (fst st)"
  shows "no_swizzle_keys (fst (registerMember n st))"
proof (cases st)
  case (Pair m idx)
  show ?thesis
  proof (cases "\<not> isPotentialSwizzle n \<and> map_of m n = None")
    case True
    then have "fst (registerMember n st) = m @ [(n, fst (nextName idx))]"
      unfolding registerMember_def Pair by simp
    then show ?thesis using no_swizzle_keys_append[of m n] assms Pair True by simp
  next
    case False
    then have "fst (registerMember n st) = m"
      unfolding registerMember_def Pair by auto
    then show ?thesis using assms Pair by simp
  qed
qed

lemma structBody_keys:
  "no_swizzle_keys (fst st) \<Longrightarrow> no_swizzle_keys (fst (snd (structBody ts st)))"
  by (induction ts st rule: structBody.induct) (auto simp: registerMember_keys)

lemma collectStructNames_loop_keys:
  "no_swizzle_keys (fst st) \<Longrightarrow> no_swizzle_keys (fst (collectStructNames_loop ts st))"
proof (induction ts st rule: collectStructNames_loop.induct)
  case (1 st)
  then show ?case by simp
next
  case (2 t ts st)
  show ?case
  proof (cases "tok_type t = ''keyword'' \<and> tok_value t = ''struct''")
    case True
    obtain rest st' where sb: "structBody (drop 1 ts) st = (rest, st')"
      by (cases "structBody (drop 1 ts) st")
    have "no_swizzle_keys (fst st')"
      using structBody_keys[OF 2(3), of "drop 1 ts"] sb by simp
    then have "no_swizzle_keys (fst (collectStructNames_loop (drop 1 rest) st'))"
      by (rule 2(1)[OF True sb[symmetric]])
    then show ?thesis using True sb by simp
  next
    case False
    have "no_swizzle_keys (fst (collectStructNames_loop ts st))"
      by (rule 2(2)[OF False 2(3)])
    then show ?thesis using False by auto
  qed
qed

lemma collectStructNames_keys: "no_swizzle_keys (fst (collectStructNames tokens index))"
  unfolding collectStructNames_def
  by (rule collectStructNames_loop_keys) (simp add: no_swizzle_keys_def)

lemma next_is_drop:
  "next_is (drop (Suc i) ts) v \<longleftrightarrow> i + 1 < length ts \<and> tok_value (ts ! (i + 1)) = v"
proof (cases "Suc i < length ts")
  case True
  then have "drop (Suc i) ts = ts ! Suc i # drop (Suc (Suc i)) ts"
    by (simp add: Cons_nth_drop_Suc)
  then show ?thesis using True by (simp add: next_is_def)
next
  case False
  then show ?thesis by (simp add: next_is_def)
qed

lemma replaceSteps_Cons:
  "replaceSteps im sm b prev (t # ts)
   = (if tok_type t = ''keyword'' \<and> tok_value t = ''struct'' \<or> b \<and> tok_value t = ''}''
      then Some t else replaceToken im sm b prev t ts)
     # replaceSteps im sm
         (if tok_type t = ''keyword'' \<and> tok_value t = ''struct'' then True
          else if b \<and> tok_value t = ''}'' then False else b) (Some t) ts"
  by simp

lemma replaceSteps_nth:
  "i < length ts \<Longrightarrow>
   \<not> (tok_type (ts ! i) = ''keyword'' \<and> tok_value (ts ! i) = ''struct'') \<Longrightarrow>
   \<not> (inStructDefinition_after b (take i ts) \<and> tok_value (ts ! i) = ''}'') \<Longrightarrow>
   replaceSteps im sm b prev ts ! i
   = replaceToken im sm (inStructDefinition_after b (take i ts))
       (if i = 0 then prev else Some (ts ! (i - 1))) (ts ! i) (drop (Suc i) ts)"
proof (induction ts arbitrary: i b prev)
  case Nil
  then show ?case by simp
next
  case (Cons t ts)
  show ?case
  proof (cases i)
    case 0
    then show ?thesis using Cons.prems by auto
  next
    case (Suc j)
    define b' where "b' = (if tok_type t = ''keyword'' \<and> tok_value t = ''struct'' then True
               else if b \<and> tok_value t = ''}'' then False else b)"
    have flag: "inStructDefinition_after b (take i (t # ts)) = inStructDefinition_after b' (take j ts)"
      unfolding b'_def Suc by simp
    have j: "j < length ts" using Cons.prems(1) Suc by simp
    have p2: "\<not> (tok_type (ts ! j) = ''keyword'' \<and> tok_value (ts ! j) = ''struct'')"
      using Cons.prems(2) Suc by simp
    have p3: "\<not> (inStructDefinition_after b' (take j ts) \<and> tok_value (ts ! j) = ''}'')"
      using Cons.prems(3) flag Suc by simp
    have ih: "replaceSteps im sm b' (Some t) ts ! j
       = replaceToken im sm (inStructDefinition_after b' (take j ts))
           (if j = 0 then Some t else Some (ts ! (j - 1))) (ts ! j) (drop (Suc j) ts)"
      by (rule Cons.IH[OF j p2 p3])
    have "replaceSteps im sm b prev (t # ts) ! i = replaceSteps im sm b' (Some t) ts ! j"
      unfolding replaceSteps_Cons b'_def Suc by simp
    moreover have "(if j = 0 then Some t else Some (ts ! (j - 1))) = Some ((t # ts) ! (i - 1))"
      using Suc by (cases j) auto
    moreover have "(t # ts) ! i = ts ! j" "drop (Suc i) (t # ts) = drop (Suc j) ts" "i \<noteq> 0"
      using Suc by simp_all
    ultimately show ?thesis using ih flag by (simp only: if_False)
  qed
qed

lemma replaceToken_swizzle:
  assumes ty: "tok_type t = ''identifier''" and sw: "isPotentialSwizzle (tok_value t)"
    and keys: "no_swizzle_keys sm"
    and pos: "(inS \<and> next_is ts '':'') \<or> (case prev of None \<Rightarrow> False | Some p \<Rightarrow> tok_value p = ''.'')"
  shows "replaceToken im sm inS prev t ts = Some t"
proof -
  have none: "map_of sm (tok_value t) = None"
    using keys sw unfolding no_swizzle_keys_def by blast
  have ren: "renameWith sm t = t"
    unfolding renameWith_def none by simp
  show ?thesis
  proof (cases "inS \<and> next_is ts '':''")
    case True
    then show ?thesis unfolding replaceToken_def using ty ren by simp
  next
    case False
    with pos have "(case prev of None \<Rightarrow> False | Some p \<Rightarrow> tok_value p = ''.'')" by blast
    then show ?thesis unfolding replaceToken_def using ty False none by auto
  qed
qed

text \<open>
  Claim C3.  \<open>isPotentialSwizzle\<close> holds of exactly the names of 1 to 4 characters drawn
  from \<open>x y z w r g b a\<close>; \<open>collectStructNames\<close> never registers such a name in the
  struct member map; and \<open>replaceIdentifiers\<close> pushes an identifier token with such a name
  unchanged, both where it is a member declaration (inside a struct definition, followed
  by a colon) and where it follows a dot, whatever the identifier map holds.
\<close>

theorem swizzle_members_not_renamed:
  "(isPotentialSwizzle name
      \<longleftrightarrow> 1 \<le> length name \<and> length name \<le> 4 \<and> set name \<subseteq> set ''xyzwrgba'')
   \<and> (isPotentialSwizzle name \<longrightarrow> map_of (fst (collectStructNames tokens index)) name = None)
   \<and> (i < length tokens \<and> tok_type (tokens ! i) = ''identifier''
        \<and> isPotentialSwizzle (tok_value (tokens ! i))
        \<and> ((inStructDefinition_after False (take i tokens)
               \<and> i + 1 < length tokens \<and> tok_value (tokens ! (i + 1)) = '':'')
             \<or> (0 < i \<and> tok_value (tokens ! (i - 1)) = ''.''))
       \<longrightarrow> replaceSteps identifierMap (fst (collectStructNames tokens index)) False None tokens ! i
            = Some (tokens ! i))"
proof (intro conjI impI)
  show "isPotentialSwizzle name
      \<longleftrightarrow> 1 \<le> length name \<and> length name \<le> 4 \<and> set name \<subseteq> set ''xyzwrgba''"
    by (rule isPotentialSwizzle_iff)
next
  assume "isPotentialSwizzle name"
  then show "map_of (fst (collectStructNames tokens index)) name = None"
    using collectStructNames_keys[of tokens index] by (simp add: no_swizzle_keys_def)
next
  let ?sm = "fst (collectStructNames tokens index)"
  assume a: "i < length tokens \<and> tok_type (tokens ! i) = ''identifier''
        \<and> isPotentialSwizzle (tok_value (tokens ! i))
        \<and> ((inStructDefinition_after False (take i tokens)
               \<and> i + 1 < length tokens \<and> tok_value (tokens ! (i + 1)) = '':'')
             \<or> (0 < i \<and> tok_value (tokens ! (i - 1)) = ''.''))"
  then have sw: "isPotentialSwizzle (tok_value (tokens ! i))" by simp
  have nb: "tok_value (tokens ! i) \<noteq> ''}''"
    using sw by (auto simp: isPotentialSwizzle_iff)
  have nk: "\<not> (tok_type (tokens ! i) = ''keyword'' \<and> tok_value (tokens ! i) = ''struct'')"
    using a by simp
  have "replaceSteps identifierMap ?sm False None tokens ! i
        = replaceToken identifierMap ?sm (inStructDefinition_after False (take i tokens))
            (if i = 0 then None else Some (tokens ! (i - 1))) (tokens ! i) (drop (Suc i) tokens)"
    using a nb nk by (intro replaceSteps_nth) auto
  also have "\<dots> = Some (tokens ! i)"
  proof (rule replaceToken_swizzle)
    show "tok_type (tokens ! i) = ''identifier''" using a by simp
    show "isPotentialSwizzle (tok_value (tokens ! i))" by (rule sw)
    show "no_swizzle_keys ?sm" by (rule collectStructNames_keys)
    show "(inStructDefinition_after False (take i tokens) \<and> next_is (drop (Suc i) tokens) '':'')
          \<or> (case (if i = 0 then None else Some (tokens ! (i - 1))) of None \<Rightarrow> False
              | Some p \<Rightarrow> tok_value p = ''.'')"
      using a by (cases "i = 0") (auto simp: next_is_drop)
  qed
  finally show "replaceSteps identifierMap ?sm False None tokens ! i = Some (tokens ! i)" .
qed

text \<open>
  The scenario of the claim, \<open>struct S { xy: f32 } v.xy\<close>, with an identifier map that
  would rename \<open>xy\<close> anywhere else.
\<close>

theorem swizzle_members_not_renamed_witness:
  "isPotentialSwizzle ''xy''
   \<and> map_of (fst (collectStructNames
        [createToken ''keyword'' ''struct'', createToken ''identifier'' ''S'',
         createToken ''operator'' ''{'', createToken ''identifier'' ''xy'',
         createToken ''operator'' '':'', createToken ''builtin'' ''f32'',
         createToken ''operator'' ''}'', createToken ''identifier'' ''v'',
         createToken ''operator'' ''.'', createToken ''identifier'' ''xy''] 0)) ''xy'' = None
   \<and> replaceSteps [(''xy'', ''_9'')] (fst (collectStructNames
        [createToken ''keyword'' ''struct'', createToken ''identifier'' ''S'',
         createToken ''operator'' ''{'', createToken ''identifier'' ''xy'',
         createToken ''operator'' '':'', createToken ''builtin'' ''f32'',
         createToken ''operator'' ''}'', createToken ''identifier'' ''v'',
         createToken ''operator'' ''.'', createToken ''identifier'' ''xy''] 0)) False None
        [createToken ''keyword'' ''struct'', createToken ''identifier'' ''S'',
         createToken ''operator'' ''{'', createToken ''identifier'' ''xy'',
         createToken ''operator'' '':'', createToken ''builtin'' ''f32'',
         createToken ''operator'' ''}'', createToken ''identifier'' ''v'',
         createToken ''operator'' ''.'', createToken ''identifier'' ''xy''] ! 3
      = Some (createToken ''identifier'' ''xy'')
   \<and> replaceSteps [(''xy'', ''_9'')] (fst (collectStructNames
        [createToken ''keyword'' ''struct'', createToken ''identifier'' ''S'',
         createToken ''operator'' ''{'', createToken ''identifier'' ''xy'',
         createToken ''operator'' '':'', createToken ''builtin'' ''f32'',
         createToken ''operator'' ''}'', createToken ''identifier'' ''v'',
         createToken ''operator'' ''.'', createToken ''identifier'' ''xy''] 0)) False None
        [createToken ''keyword'' ''struct'', createToken ''identifier'' ''S'',
         createToken ''operator'' ''{'', createToken ''identifier'' ''xy'',
         createToken ''operator'' '':'', createToken ''builtin'' ''f32'',
         createToken ''operator'' ''}'', createToken ''identifier'' ''v'',
         createToken ''operator'' ''.'', createToken ''identifier'' ''xy''] ! 9
      = Some (createToken ''identifier'' ''xy'')"
proof -
  let ?ex = "[createToken ''keyword'' ''struct'', createToken ''identifier'' ''S'',
         createToken ''operator'' ''{'', createToken ''identifier'' ''xy'',
         createToken ''operator'' '':'', createToken ''builtin'' ''f32'',
         createToken ''operator'' ''}'', createToken ''identifier'' ''v'',
         createToken ''operator'' ''.'', createToken ''identifier'' ''xy'']"
  have sw: "isPotentialSwizzle ''xy''"
    by (simp add: isPotentialSwizzle_iff)
  show ?thesis
    using swizzle_members_not_renamed [of "''xy''" ?ex 0 3 "[(''xy'', ''_9'')]"]
          swizzle_members_not_renamed [of "''xy''" ?ex 0 9 "[(''xy'', ''_9'')]"]
    by (simp add: createToken_def sw)
qed

text \<open>The same scenario through both collection passes, replacement and reconstruction.\<close>

lemma swizzle_scenario_output:
  "obfuscateCode
     [createToken ''keyword'' ''struct'', createToken ''identifier'' ''S'',
      createToken ''operator'' ''{'', createToken ''identifier'' ''xy'',
      createToken ''operator'' '':'', createToken ''builtin'' ''f32'',
      createToken ''operator'' '','', createToken ''identifier'' ''pos'',
      createToken ''operator'' '':'', createToken ''builtin'' ''f32'',
      createToken ''operator'' ''}'', createToken ''keyword'' ''fn'',
      createToken ''identifier'' ''f'', createToken ''operator'' ''('',
      createToken ''identifier'' ''xy'', createToken ''operator'' '':'',
      createToken ''identifier'' ''S'', createToken ''operator'' '')'',
      createToken ''operator'' ''{'', createToken ''keyword'' ''return'',
      createToken ''identifier'' ''xy'', createToken ''operator'' ''.'',
      createToken ''identifier'' ''xy'', createToken ''operator'' ''.'',
      createToken ''identifier'' ''pos'', createToken ''operator'' '';'',
      createToken ''operator'' ''}'']
   = ''struct _1{xy:f32,_0:f32}fn _2(_3:_1){return _3.xy._0;}''"
  by (simp add: obfuscateCode_def createToken_def collectStructNames_def
      collectDeclaredIdentifiersAndEntryPoints_def next_is_def next_is_identifier_def
      registerMember_def registerIdentifier_def registerFunction_def nextName_def
      toString36.simps digit36_def isPotentialSwizzle_iff swizzles_iff swizzle_components_def
      replaceIdentifiers_def replaceToken_def renameWith_def List.map_filter_def
      reconstructObfuscatedCode_def bindingComments_def joinLines_def)

section \<open>Entry points keep their names\<close>

lemma map_of_map_set: "map_of (map_set m k v) k' = (if k' = k then Some v else map_of m k')"
  by (induction m k v rule: map_set.induct) auto

lemma registerIdentifier_other:
  "n \<noteq> name \<Longrightarrow> map_of (cs_identifierMap (registerIdentifier n st)) name = map_of (cs_identifierMap st) name"
  by (simp add: registerIdentifier_def map_of_map_set)

lemma registerIdentifier_entry [simp]:
  "cs_entryPointNames (registerIdentifier n st) = cs_entryPointNames st"
  by (simp add: registerIdentifier_def)

lemma registerFunction_entry [simp]:
  "cs_entryPointNames (registerFunction n st) = cs_entryPointNames st"
  by (simp add: registerFunction_def)

lemma registerFunction_keeps:
  "name \<in> cs_entryPointNames st \<Longrightarrow>
   map_of (cs_identifierMap (registerFunction f st)) name = map_of (cs_identifierMap st) name"
  by (cases "f = name") (auto simp: registerFunction_def registerIdentifier_other)

lemma declared_otherwise_tl: "declared_otherwise name (tl ts) \<Longrightarrow> declared_otherwise name ts"
  by (cases ts) auto

lemma declared_otherwise_drop: "declared_otherwise name (drop k ts) \<Longrightarrow> declared_otherwise name ts"
proof (induction k arbitrary: ts)
  case 0
  then show ?case by simp
next
  case (Suc k)
  show ?case
  proof (cases ts)
    case Nil
    with Suc.prems show ?thesis by simp
  next
    case (Cons t ts')
    with Suc.prems have "declared_otherwise name (drop k ts')" by simp
    then have "declared_otherwise name ts'" by (rule Suc.IH)
    then show ?thesis using Cons by simp
  qed
qed

definition entry_inv :: "string \<Rightarrow> collect_state \<Rightarrow> bool" where
  "entry_inv name st = (name \<in> cs_entryPointNames st \<and> map_of (cs_identifierMap st) name = None)"

lemma collectDirective_inv:
  assumes "entry_inv name st" "\<not> declared_otherwise name (t # ts)" "tok_type t = ''directive''"
  shows "entry_inv name (collectDirective t st)"
proof (cases "matchDirective (tok_value t)")
  case None
  then show ?thesis using assms(1) by (simp add: collectDirective_def)
next
  case (Some r)
  obtain dt n l where r: "r = (dt, n, l)" by (cases r)
  have nb: "\<not> (dt = ''binding'' \<and> n = name)"
    using assms(2,3) Some r by simp
  show ?thesis
  proof (cases "dt = ''binding''")
    case True
    with nb have "n \<noteq> name" by simp
    then show ?thesis using assms(1) Some r True
      by (simp add: collectDirective_def entry_inv_def Let_def registerIdentifier_other)
  next
    case False
    then show ?thesis using assms(1) Some r
      by (auto simp: collectDirective_def entry_inv_def)
  qed
qed

lemma paramLoop_inv:
  "entry_inv name st \<Longrightarrow> \<not> declared_otherwise name ts \<Longrightarrow>
   entry_inv name (snd (paramLoop ts st)) \<and> \<not> declared_otherwise name (fst (paramLoop ts st))"
proof (induction ts st rule: paramLoop.induct)
  case (1 st)
  then show ?case by simp
next
  case (2 t st)
  then show ?case by (cases "tok_value t = '')''") (simp_all del: declared_otherwise.simps(2))
next
  case (3 t n ts st)
  note prems = "3.prems" and IH = "3.IH"
  show ?case
  proof (cases "tok_value t = '')''")
    case True
    then show ?thesis using prems by simp
  next
    case nc: False
    show ?thesis
    proof (cases "tok_type t = ''identifier'' \<and> tok_value n = '':''")
      case True
      have ne: "tok_value t \<noteq> name" using prems(2) True by (auto simp: next_is_def)
      have i1: "entry_inv name (registerIdentifier (tok_value t) st)"
        using prems(1) ne by (simp add: entry_inv_def registerIdentifier_other)
      have i2: "\<not> declared_otherwise name ts" using prems(2) by simp
      show ?thesis using IH(1)[OF nc True i1 i2] nc True by simp
    next
      case False
      have i2: "\<not> declared_otherwise name (n # ts)" using prems(2) by simp
      show ?thesis using IH(2)[OF nc False prems(1) i2] nc False by auto
    qed
  qed
qed

lemma collectDeclared_loop_inv:
  "entry_inv name st \<Longrightarrow> \<not> declared_otherwise name ts \<Longrightarrow>
   entry_inv name (collectDeclared_loop ts st)"
proof (induction ts st rule: collectDeclared_loop.induct)
  case (1 st)
  then show ?case by simp
next
  case (2 t ts st)
  have nts: "\<not> declared_otherwise name ts" using "2.prems"(2) by simp
  have ntl: "\<not> declared_otherwise name (tl ts)" using nts declared_otherwise_tl by blast
  show ?case
  proof (cases "tok_type t = ''directive''")
    case True
    have "entry_inv name (collectDirective t st)"
      by (rule collectDirective_inv[OF "2.prems"(1) "2.prems"(2) True])
    then show ?thesis using "2.IH"(1)[OF True _ nts] True by simp
  next
    case nd: False
    show ?thesis
    proof (cases "tok_type t = ''keyword''")
      case False
      then show ?thesis using "2.IH"(7)[OF nd False "2.prems"(1) nts] nd by simp
    next
      case kw: True
      show ?thesis
      proof (cases "tok_value t = ''fn'' \<and> next_is_identifier ts")
        case fn: True
        define st1 where "st1 = registerFunction (tok_value (hd ts)) st"
        have inv1: "entry_inv name st1"
          using "2.prems"(1) unfolding st1_def entry_inv_def by (simp add: registerFunction_keeps)
        show ?thesis
        proof (cases "next_is (tl ts) ''(''")
          case True
          obtain rest st2 where pl: "paramLoop (drop 2 ts) st1 = (rest, st2)"
            by (cases "paramLoop (drop 2 ts) st1")
          have nd2: "\<not> declared_otherwise name (drop 2 ts)"
            using nts declared_otherwise_drop by blast
          have "entry_inv name st2 \<and> \<not> declared_otherwise name rest"
            using paramLoop_inv[OF inv1 nd2] pl by simp
          then have i2: "entry_inv name st2" and nr: "\<not> declared_otherwise name (drop 1 rest)"
            using declared_otherwise_drop by blast+
          have "entry_inv name (collectDeclared_loop (drop 1 rest) st2)"
            using "2.IH"(2)[OF nd kw fn st1_def True pl[symmetric] i2 nr] .
          then show ?thesis using nd kw fn True pl by (simp add: st1_def[symmetric])
        next
          case False
          have "entry_inv name (collectDeclared_loop (tl ts) st1)"
            using "2.IH"(3)[OF nd kw fn st1_def False inv1 ntl] .
          then show ?thesis using nd kw fn False by (simp add: st1_def[symmetric])
        qed
      next
        case nfn: False
        have hdne: "next_is_identifier ts \<Longrightarrow>
            (tok_value t = ''let'' \<or> tok_value t = ''var'' \<or> tok_value t = ''const'' \<or> tok_value t = ''struct'')
            \<Longrightarrow> tok_value (hd ts) \<noteq> name"
          using "2.prems"(2) kw by (cases ts) (auto simp: next_is_identifier_def)
        show ?thesis
        proof (cases "(tok_value t = ''let'' \<or> tok_value t = ''var'' \<or> tok_value t = ''const'') \<and> next_is_identifier ts")
          case True
          have "entry_inv name (registerIdentifier (tok_value (hd ts)) st)"
            proof -
            have "tok_value (hd ts) \<noteq> name" using hdne True by blast
            then show ?thesis using "2.prems"(1) by (simp add: entry_inv_def registerIdentifier_other)
          qed
          then show ?thesis using "2.IH"(4)[OF nd kw nfn True _ ntl] nd kw nfn True by simp
        next
          case nl: False
          show ?thesis
          proof (cases "tok_value t = ''struct'' \<and> next_is_identifier ts")
            case True
            have "entry_inv name (registerIdentifier (tok_value (hd ts)) st)"
              proof -
            have "tok_value (hd ts) \<noteq> name" using hdne True by blast
            then show ?thesis using "2.prems"(1) by (simp add: entry_inv_def registerIdentifier_other)
          qed
            then show ?thesis using "2.IH"(5)[OF nd kw nfn nl True _ ntl] nd kw nfn nl True by simp
          next
            case False
            have eq: "collectDeclared_loop (t # ts) st = collectDeclared_loop ts st"
              using nd kw nfn nl False by (simp only: collectDeclared_loop.simps if_False if_True if_cancel)
            show ?thesis unfolding eq by (rule "2.IH"(6)[OF nd kw nfn nl False "2.prems"(1) nts])
          qed
        qed
      qed
    qed
  qed
qed


lemma registerMember_other:
  "n \<noteq> name \<Longrightarrow> map_of (fst (registerMember n st)) name = map_of (fst st) name"
  by (cases st) (auto simp: registerMember_def map_of_append map_add_def split: option.splits)

lemma structBody_not_declared:
  "map_of (fst st) name = None \<Longrightarrow> \<not> declared_otherwise name ts \<Longrightarrow>
   map_of (fst (snd (structBody ts st))) name = None
   \<and> \<not> declared_otherwise name (fst (structBody ts st))"
proof (induction ts st rule: structBody.induct)
  case (1 st)
  then show ?case by simp
next
  case (2 t ts st)
  show ?case
  proof (cases "tok_value t = ''}''")
    case True
    then show ?thesis using "2.prems" by (simp del: declared_otherwise.simps)
  next
    case nb: False
    have nts: "\<not> declared_otherwise name ts" using "2.prems"(2) by simp
    show ?thesis
    proof (cases "tok_type t = ''identifier'' \<and> next_is ts '':''")
      case True
      then have "tok_value t \<noteq> name" using "2.prems"(2) by auto
      then have "map_of (fst (registerMember (tok_value t) st)) name = None"
        using "2.prems"(1) by (simp add: registerMember_other)
      then show ?thesis using "2.IH"[OF nb _ nts] nb True by simp
    next
      case False
      then show ?thesis using "2.IH"[OF nb _ nts] "2.prems"(1) nb by auto
    qed
  qed
qed

lemma collectStructNames_loop_not_declared:
  "map_of (fst st) name = None \<Longrightarrow> \<not> declared_otherwise name ts \<Longrightarrow>
   map_of (fst (collectStructNames_loop ts st)) name = None"
proof (induction ts st rule: collectStructNames_loop.induct)
  case (1 st)
  then show ?case by simp
next
  case (2 t ts st)
  have nts: "\<not> declared_otherwise name ts" using "2.prems"(2) by simp
  show ?case
  proof (cases "tok_type t = ''keyword'' \<and> tok_value t = ''struct''")
    case True
    obtain rest st' where sb: "structBody (drop 1 ts) st = (rest, st')"
      by (cases "structBody (drop 1 ts) st")
    have nd: "\<not> declared_otherwise name (drop 1 ts)"
      using nts declared_otherwise_drop by blast
    have "map_of (fst st') name = None \<and> \<not> declared_otherwise name rest"
      using structBody_not_declared[OF "2.prems"(1) nd] sb by simp
    then have m: "map_of (fst st') name = None" and nr: "\<not> declared_otherwise name (drop 1 rest)"
      using declared_otherwise_drop by blast+
    have "map_of (fst (collectStructNames_loop (drop 1 rest) st')) name = None"
      by (rule "2.IH"(1)[OF True sb[symmetric] m nr])
    then show ?thesis using True sb by simp
  next
    case False
    have "map_of (fst (collectStructNames_loop ts st)) name = None"
      by (rule "2.IH"(2)[OF False "2.prems"(1) nts])
    then show ?thesis using False by auto
  qed
qed

lemma renameWith_unmapped: "map_of m (tok_value t) = None \<Longrightarrow> renameWith m t = t"
  by (simp add: renameWith_def)

lemma replaceToken_unmapped:
  assumes "map_of im (tok_value t) = None" "map_of sm (tok_value t) = None"
    "tok_type t \<noteq> ''directive''"
  shows "replaceToken im sm inS prev t ts = Some t"
  using assms unfolding replaceToken_def by (simp add: renameWith_unmapped)

lemma replaceSteps_unmapped:
  "map_of im name = None \<Longrightarrow> map_of sm name = None \<Longrightarrow> i < length ts \<Longrightarrow>
   tok_value (ts ! i) = name \<Longrightarrow> tok_type (ts ! i) \<noteq> ''directive'' \<Longrightarrow>
   replaceSteps im sm b prev ts ! i = Some (ts ! i)"
proof (induction ts arbitrary: i b prev)
  case Nil
  then show ?case by simp
next
  case (Cons t ts)
  show ?case
  proof (cases i)
    case 0
    then have "replaceToken im sm b prev t ts = Some t"
      using Cons.prems by (intro replaceToken_unmapped) simp_all
    then show ?thesis using 0 by simp
  next
    case (Suc j)
    then show ?thesis using Cons.IH[of j] Cons.prems by simp
  qed
qed

lemma registerFunction_rule:
  "map_of (cs_identifierMap (registerFunction funcName st)) funcName \<noteq> None
   \<longleftrightarrow> map_of (cs_identifierMap st) funcName \<noteq> None
       \<or> \<not> (funcName \<in> cs_entryPointNames st \<or> (cs_entryPointNames st = {} \<and> funcName = ''main''))"
  by (auto simp: registerFunction_def registerIdentifier_def map_of_map_set)

text \<open>
  What the pass does when the directive comes before the function.  A name that is in
  the entry-point set and not in the identifier map stays out of the map as long as the
  remaining tokens do not declare it otherwise (see \<^const>\<open>declared_otherwise\<close>), so
  when the entry-point directive is the first token every token carrying the name
  (other than a directive token, which is dropped) is pushed unchanged by
  \<open>replaceIdentifiers\<close>.
\<close>

lemma entry_point_kept_after_directive:
  assumes "tok_type d = ''directive''"
    and "matchDirective (tok_value d) = Some (''entrypoint'', name, n)"
    and nd: "\<not> declared_otherwise name (d # ts)"
    and "i < length (d # ts)" and "tok_value ((d # ts) ! i) = name"
    and "tok_type ((d # ts) ! i) \<noteq> ''directive''"
  shows "replaceSteps
             (cs_identifierMap (collectDeclaredIdentifiersAndEntryPoints (d # ts) (snd (collectStructNames (d # ts) 0))))
             (fst (collectStructNames (d # ts) 0)) False None (d # ts) ! i
           = Some ((d # ts) ! i)"
proof -
  let ?idx = "snd (collectStructNames (d # ts) 0)"
  let ?st0 = "\<lparr>cs_identifierMap = [], cs_bindingMap = [], cs_entryPointNames = {}, cs_nameIndex = ?idx\<rparr>"
  have nts: "\<not> declared_otherwise name ts"
    using nd by simp
  have "entry_inv name (collectDirective d ?st0)"
    using assms by (simp add: collectDirective_def entry_inv_def)
  then have "entry_inv name (collectDeclared_loop ts (collectDirective d ?st0))"
    using nts by (intro collectDeclared_loop_inv)
  then have im: "map_of (cs_identifierMap (collectDeclaredIdentifiersAndEntryPoints (d # ts) ?idx)) name = None"
    using assms by (simp add: collectDeclaredIdentifiersAndEntryPoints_def entry_inv_def)
  have sm: "map_of (fst (collectStructNames (d # ts) 0)) name = None"
    unfolding collectStructNames_def
    by (rule collectStructNames_loop_not_declared[OF _ nd]) simp
  show ?thesis
    using assms by (intro replaceSteps_unmapped[OF im sm]) simp_all
qed

text \<open>
  Claim C4.  The set of entry points is filled by the same pass that registers the
  functions, so a function is compared with the directives seen before it only.  On
  \<open>fn main2() {}  #entrypoint "main2"\<close> the directive names \<open>main2\<close>, and \<open>main2\<close> is renamed
  to \<open>_0\<close>; with the directive first the same function keeps its name, and in
  \<open>#entrypoint "main2"  fn main2() {}  fn helper() { main2(); }\<close> the helper is renamed and
  the entry point is not.
\<close>

theorem entry_point_after_function_renamed:
  "matchDirective ''#entrypoint \"main2\"'' = Some (''entrypoint'', ''main2'', 19)
   \<and> obfuscateCode
       [createToken ''keyword'' ''fn'', createToken ''identifier'' ''main2'',
        createToken ''operator'' ''('', createToken ''operator'' '')'',
        createToken ''operator'' ''{'', createToken ''operator'' ''}'',
        createToken ''directive'' ''#entrypoint \"main2\"'']
     = ''fn _0(){}''
   \<and> obfuscateCode
       [createToken ''directive'' ''#entrypoint \"main2\"'',
        createToken ''keyword'' ''fn'', createToken ''identifier'' ''main2'',
        createToken ''operator'' ''('', createToken ''operator'' '')'',
        createToken ''operator'' ''{'', createToken ''operator'' ''}'']
     = ''fn main2(){}''
   \<and> obfuscateCode
       [createToken ''directive'' ''#entrypoint \"main2\"'',
        createToken ''keyword'' ''fn'', createToken ''identifier'' ''main2'',
        createToken ''operator'' ''('', createToken ''operator'' '')'',
        createToken ''operator'' ''{'', createToken ''operator'' ''}'',
        createToken ''keyword'' ''fn'', createToken ''identifier'' ''helper'',
        createToken ''operator'' ''('', createToken ''operator'' '')'',
        createToken ''operator'' ''{'', createToken ''identifier'' ''main2'',
        createToken ''operator'' ''('', createToken ''operator'' '')'',
        createToken ''operator'' '';'', createToken ''operator'' ''}'']
     = ''fn main2(){}fn _0(){main2();}''"
proof -
  have md: "matchDirective ''#entrypoint \"main2\"'' = Some (''entrypoint'', ''main2'', 19)"
    by (simp add: matchDirective_def is_word_def is_alpha_def is_digit_def is_space_def)
  note defs = obfuscateCode_def createToken_def collectStructNames_def md
      collectDeclaredIdentifiersAndEntryPoints_def collectDirective_def
      next_is_def next_is_identifier_def
      registerMember_def registerIdentifier_def registerFunction_def nextName_def
      toString36.simps digit36_def
      replaceIdentifiers_def replaceToken_def renameWith_def List.map_filter_def
      reconstructObfuscatedCode_def bindingComments_def joinLines_def
  show ?thesis
    by (simp add: defs)
qed

section \<open>A line is emitted when every open conditional includes\<close>


lemma processLine_plain:
  "\<not> startsWith (trim l) ''#'' \<Longrightarrow>
   processLine ev l st =
     (if isCurrentlyIncluding st
      then (case expandMacros l (defines st) of
              Inl e \<Rightarrow> Inl e
            | Inr x \<Rightarrow> Inr (st\<lparr>resultLines := resultLines st @ [x]\<rparr>))
      else Inr st)"
  by (simp add: processLine_def)



lemma processLine_endif:
  "processLine ev ''#endif'' st =
     (case conditionalStack st of
        [] \<Rightarrow> Inl UnexpectedEndif
      | _ # below \<Rightarrow> Inr (st\<lparr>conditionalStack := below\<rparr>))"
  by (simp add: processLine_def processDirective_def stripComment_def directiveMatch_def
      directiveMatchEnd_def startsWith_def trim_def is_space_def Let_def)



section \<open>Only the first true branch of a chain is taken\<close>

lemma trim_id: "s \<noteq> [] \<Longrightarrow> \<not> is_space (hd s) \<Longrightarrow> \<not> is_space (last s) \<Longrightarrow> trim s = s"
proof -
  assume a: "s \<noteq> []" "\<not> is_space (hd s)" "\<not> is_space (last s)"
  have 1: "dropWhile is_space s = s" using a by (cases s) simp_all
  have "dropWhile is_space (last s # rev (butlast s)) = last s # rev (butlast s)"
    using a by simp
  moreover have "last s # rev (butlast s) = rev s"
    using a(1) by (metis append_butlast_last_id rev.simps(2) rev_rev_ident rev_swap)
  ultimately have 2: "dropWhile is_space (rev s) = rev s" by simp
  show ?thesis by (simp add: trim_def 1 2)
qed

lemma dropWhile_spaces: "list_all is_space w \<Longrightarrow> dropWhile is_space (w @ s) = dropWhile is_space s"
  by (induction w) simp_all

lemma takeWhile_spaces:
  "list_all is_space w \<Longrightarrow> takeWhile is_space (w @ s) = w @ takeWhile is_space s"
  by (induction w) simp_all

lemma trim_padded:
  assumes "list_all is_space w" "list_all is_space w'"
    and m: "m \<noteq> []" "\<not> is_space (hd m)" "\<not> is_space (last m)"
  shows "trim (w @ m @ w') = m"
proof -
  have 1: "dropWhile is_space (w @ m @ w') = m @ w'"
    using assms by (cases m) (simp_all add: dropWhile_spaces)
  have "list_all is_space (rev w')" using assms by (simp add: list_all_iff)
  then have "dropWhile is_space (rev w' @ rev m) = dropWhile is_space (rev m)"
    by (rule dropWhile_spaces)
  moreover have "dropWhile is_space (last m # rev (butlast m)) = last m # rev (butlast m)"
    using m by simp
  moreover have "last m # rev (butlast m) = rev m"
    using m(1) by (metis append_butlast_last_id rev.simps(2) rev_rev_ident rev_swap)
  ultimately have 2: "dropWhile is_space (rev w' @ rev m) = rev m"
    by simp
  show ?thesis by (simp add: trim_def 1 2)
qed

lemma trim_decomp:
  "\<exists>w w'. list_all is_space w \<and> list_all is_space w' \<and> r = w @ trim r @ w'"
proof -
  let ?d = "dropWhile is_space r"
  have 1: "r = takeWhile is_space r @ ?d" by simp
  have 2: "rev ?d = takeWhile is_space (rev ?d) @ dropWhile is_space (rev ?d)" by simp
  have "?d = rev (rev ?d)" by simp
  also have "\<dots> = rev (dropWhile is_space (rev ?d)) @ rev (takeWhile is_space (rev ?d))"
    by (subst 2) (simp only: rev_append)
  finally have 3: "?d = trim r @ rev (takeWhile is_space (rev ?d))"
    by (simp add: trim_def)
  have "list_all is_space (takeWhile is_space r)"
    by (simp add: list_all_iff) (meson set_takeWhileD)
  moreover have "list_all is_space (rev (takeWhile is_space (rev ?d)))"
    by (simp add: list_all_iff) (meson set_takeWhileD)
  moreover have "r = takeWhile is_space r @ trim r @ rev (takeWhile is_space (rev ?d))"
    using 1 3 by metis
  ultimately show ?thesis by blast
qed

lemma directive_with_shape:
  assumes "directive_with kw c l"
  shows "\<exists>w0 w1 w2. list_all is_space w0 \<and> list_all is_space w1 \<and> w1 \<noteq> []
           \<and> list_all is_space w2 \<and> l = w0 @ kw @ w1 @ c @ w2"
proof -
  let ?t = "dropWhile is_space l"
  let ?r = "drop (length kw) ?t"
  have c: "condition_text c" and k: "startsWith ?t kw" and n: "takeWhile is_space ?r \<noteq> []"
    and t: "trim ?r = c"
    using assms by (simp_all add: directive_with_def)
  obtain w w' where w: "list_all is_space w" "list_all is_space w'" "?r = w @ c @ w'"
    using trim_decomp[of ?r] t by auto
  have c0: "c \<noteq> []" "\<not> is_space (hd c)" using c by (simp_all add: condition_text_def)
  have "takeWhile is_space ?r = w"
    using w c0 by (cases c) (simp_all add: takeWhile_spaces)
  then have wn: "w \<noteq> []" using n by simp
  have "?t = kw @ ?r" using k by (metis append_take_drop_id startsWith_def)
  then have "l = takeWhile is_space l @ kw @ w @ c @ w'"
    using w(3) by (metis takeWhile_dropWhile_id)
  moreover have "list_all is_space (takeWhile is_space l)"
    by (simp add: list_all_iff) (meson set_takeWhileD)
  ultimately show ?thesis using w wn by blast
qed

lemma indexOf_append_prefix:
  "c \<notin> set p \<Longrightarrow> indexOf (p @ s) (c # q) = map_option (\<lambda>i. length p + i) (indexOf s (c # q))"
proof (induction p)
  case Nil
  then show ?case by (simp add: option.map_ident)
next
  case (Cons x p)
  then show ?case by (auto simp add: startsWith_def option.map_comp comp_def)
qed

text \<open>How the processor reads the lines \<open>#if COND\<close> and \<open>#elif COND\<close>.\<close>

lemma if_line:
  assumes "directive_with ''#if'' c l"
  shows "startsWith (trim l) ''#''" and "stripComment (trim l) = trim l"
    and "directiveMatch ''#define'' (trim l) = None"
    and "directiveMatch ''#undef'' (trim l) = None"
    and "\<exists>n. directiveMatch ''#if'' (trim l) = Some n \<and> trim (drop n (trim l)) = c"
proof -
  obtain w0 w1 w2 where w: "list_all is_space w0" "list_all is_space w1" "w1 \<noteq> []"
    "list_all is_space w2" and l: "l = w0 @ ''#if'' @ w1 @ c @ w2"
    using directive_with_shape[OF assms] by blast
  have c: "c \<noteq> []" "\<not> is_space (hd c)" "\<not> is_space (last c)" "indexOf c ''//'' = None"
    using assms by (simp_all add: directive_with_def condition_text_def)
  have "trim (w0 @ (''#if'' @ w1 @ c) @ w2) = ''#if'' @ w1 @ c"
    using w c by (intro trim_padded) (simp_all add: is_space_def)
  then have t: "trim l = ''#if'' @ w1 @ c"
    by (simp add: l)
  show "startsWith (trim l) ''#''"
    unfolding t by (simp add: startsWith_def)
  have "CHR ''/'' \<notin> set (''#if'' @ w1)"
    using w(2) by (auto simp: list_all_iff is_space_def)
  then have "indexOf ((''#if'' @ w1) @ c) ''//''
        = map_option (\<lambda>i. length (''#if'' @ w1) + i) (indexOf c ''//'')"
    by (rule indexOf_append_prefix)
  then have "indexOf (trim l) ''//'' = None"
    using c(4) by (simp add: t)
  then show "stripComment (trim l) = trim l"
    by (simp add: stripComment_def)
  show "directiveMatch ''#define'' (trim l) = None" "directiveMatch ''#undef'' (trim l) = None"
    unfolding t by (simp_all add: directiveMatch_def startsWith_def)
  have tw: "takeWhile is_space (w1 @ c) = w1"
    using w(2) c by (cases c) (simp_all add: takeWhile_spaces)
  have "directiveMatch ''#if'' (trim l) = Some (length ''#if'' + length w1)"
    unfolding t using w(3) by (simp add: directiveMatch_def startsWith_def tw)
  moreover have "trim (drop (length ''#if'' + length w1) (trim l)) = c"
    unfolding t using c by (simp add: trim_id)
  ultimately show "\<exists>n. directiveMatch ''#if'' (trim l) = Some n \<and> trim (drop n (trim l)) = c"
    by blast
qed


lemma processLine_if:
  assumes "directive_with ''#if'' c l"
  shows "processLine ev l st =
     (if isCurrentlyIncluding st
      then (case evaluateExpression ev c (defines st) of
              (Inl e, dfs') \<Rightarrow> Inl e
            | (Inr result, dfs') \<Rightarrow> Inr (pushConditional result (st\<lparr>defines := dfs'\<rparr>)))
      else Inr (pushConditional False st))"
proof -
  obtain n where n: "directiveMatch ''#if'' (trim l) = Some n" "trim (drop n (trim l)) = c"
    using if_line(5)[OF assms] by blast
  show ?thesis
    by (simp add: processLine_def processDirective_def Let_def if_line(1-4)[OF assms] n
        cong: if_cong)
qed







section \<open>Function-like macros check their argument count\<close>



lemma startsWith_length': "startsWith s p \<Longrightarrow> length p \<le> length s"
  by (metis startsWith_def length_take min.cobounded2 min_def nat_le_linear)

lemma indexOf_Cons_None:
  "indexOf (c # cs) p = None \<Longrightarrow> \<not> startsWith (c # cs) p \<and> indexOf cs p = None"
  by (auto split: if_splits)

lemma indexOf_None_startsWith: "indexOf s p = None \<Longrightarrow> \<not> startsWith s p"
  by (cases s) (auto simp: startsWith_def split: if_splits)


lemma indexOf_None_prefix: "indexOf (p @ q) n = None \<Longrightarrow> indexOf p n = None"
proof (induction p)
  case Nil
  then have "\<not> startsWith q n" by (simp add: indexOf_None_startsWith)
  then have "n \<noteq> []" by (auto simp: startsWith_def)
  then show ?case by simp
next
  case (Cons c p)
  then have a: "\<not> startsWith (c # p @ q) n" and b: "indexOf (p @ q) n = None"
    by (auto split: if_splits)
  have "\<not> startsWith (c # p) n"
  proof
    assume "startsWith (c # p) n"
    then have "take (length n) (c # p) = n" by (simp add: startsWith_def)
    then have "take (length n) ((c # p) @ q) = n"
      by (metis append_eq_conv_conj take_append take_all_iff length_take min.absorb2 
          append.right_neutral append_take_drop_id take_take nat_le_linear)
    then show False using a by (simp add: startsWith_def)
  qed
  then show ?case using Cons.IH[OF b] by simp
qed






















section \<open>A macro defined with no text\<close>

lemma is_space_not_word: "is_space c \<Longrightarrow> \<not> is_word c"
  by (auto simp: is_space_def is_word_def is_alpha_def is_digit_def)

lemma is_ident_start_word: "is_ident_start c \<Longrightarrow> is_word c"
  by (auto simp: is_ident_start_def is_word_def)

lemma is_ident_start_not_space: "is_ident_start c \<Longrightarrow> \<not> is_space c"
  using is_space_not_word is_ident_start_word by blast

lemma is_identifier_facts:
  assumes "is_identifier n"
  shows "n \<noteq> []" and "is_ident_start (hd n)" and "\<forall>c \<in> set n. is_word c"
    and "\<not> is_space (hd n)" and "\<not> is_space (last n)"
    and "CHR ''/'' \<notin> set n" and "CHR ''('' \<notin> set n" and "CHR ''='' \<notin> set n"
proof -
  show 1: "n \<noteq> []" and 2: "is_ident_start (hd n)" and 3: "\<forall>c \<in> set n. is_word c"
    using assms by (simp_all add: is_identifier_def list_all_iff)
  show "\<not> is_space (hd n)" using 2 by (rule is_ident_start_not_space)
  have "is_word (last n)" using 1 3 by simp
  then show "\<not> is_space (last n)" using is_space_not_word by blast
  show "CHR ''/'' \<notin> set n" "CHR ''('' \<notin> set n" "CHR ''='' \<notin> set n"
    using 3 by (auto simp: is_word_def is_alpha_def is_digit_def)
qed

lemma indexOf_absent_char: "c \<notin> set s \<Longrightarrow> indexOf s (c # q) = None"
  using indexOf_append_prefix[of c s "[]" q] by simp

lemma defined_match_paren: "defined_match s = Some x \<Longrightarrow> CHR ''('' \<in> set s"
proof -
  assume "defined_match s = Some x"
  then obtain r1 r2 where 1: "after_literal ''defined'' s = Some r1"
    and 2: "after_literal ''('' (dropWhile is_space r1) = Some r2"
    by (auto simp: defined_match_def split: option.splits)
  have r1: "r1 = drop (length ''defined'') s"
    using 1 by (auto simp: after_literal_def split: if_splits)
  have "startsWith (dropWhile is_space r1) ''(''"
    using 2 by (auto simp: after_literal_def split: if_splits)
  then have "CHR ''('' \<in> set (dropWhile is_space r1)"
    by (cases "dropWhile is_space r1") (auto simp: startsWith_def)
  then have "CHR ''('' \<in> set r1" by (rule set_dropWhileD)
  then show ?thesis unfolding r1 by (rule in_set_dropD)
qed

lemma replaceDefined_no_paren: "CHR ''('' \<notin> set s \<Longrightarrow> replaceDefined dfs s = s"
proof (induction s)
  case Nil
  then show ?case by (simp add: replaceDefined.simps)
next
  case (Cons c cs)
  have "defined_match (c # cs) = None"
  proof (cases "defined_match (c # cs)")
    case (Some x)
    then show ?thesis using defined_match_paren[OF Some] Cons.prems by blast
  qed simp
  then show ?case using Cons by (simp add: replaceDefined.simps)
qed

lemma equality_match_at_eq: "equality_match_at expr p = Some x \<Longrightarrow> CHR ''='' \<in> set expr"
proof -
  assume "equality_match_at expr p = Some x"
  then obtain left r1 r2 where 1: "identifier_at (drop p expr) = Some (left, r1)"
    and 2: "after_literal ''=='' (dropWhile is_space r1) = Some r2"
    by (auto simp: equality_match_at_def split: option.splits if_splits)
  have r1: "r1 = dropWhile is_word (drop p expr)"
    using 1 by (auto simp: identifier_at_def split: list.splits if_splits)
  have "startsWith (dropWhile is_space r1) ''==''"
    using 2 by (auto simp: after_literal_def split: if_splits)
  then have "CHR ''='' \<in> set (dropWhile is_space r1)"
    by (cases "dropWhile is_space r1") (auto simp: startsWith_def)
  then have "CHR ''='' \<in> set r1" by (rule set_dropWhileD)
  then have "CHR ''='' \<in> set (drop p expr)" unfolding r1 by (rule set_dropWhileD)
  then show ?thesis by (rule in_set_dropD)
qed

lemma findEquality_no_eq: "CHR ''='' \<notin> set expr \<Longrightarrow> findEquality expr p = None"
proof (induction expr p rule: findEquality.induct)
  case (1 expr p)
  have n: "equality_match_at expr p = None"
  proof (cases "equality_match_at expr p")
    case (Some x)
    then show ?thesis using equality_match_at_eq[OF Some] 1(2) by blast
  qed simp
  show ?case
  proof (cases "length expr \<le> p")
    case True
    then show ?thesis by (simp add: findEquality.simps)
  next
    case False
    then show ?thesis using 1(1)[OF False n] 1(2) n by (subst findEquality.simps) simp
  qed
qed

lemma equalityLoop_no_eq: "CHR ''='' \<notin> set expr \<Longrightarrow> equalityLoop dfs expr p = expr"
  by (subst equalityLoop.simps) (simp add: findEquality_no_eq)

lemma takeWhile_word_append:
  assumes "\<forall>c \<in> set n. is_word c" "rest = [] \<or> \<not> is_word (hd rest)"
  shows "takeWhile is_word (n @ rest) = n" and "dropWhile is_word (n @ rest) = rest"
proof -
  have "takeWhile is_word rest = []" "dropWhile is_word rest = rest"
    using assms(2) by (cases rest; simp)+
  then show "takeWhile is_word (n @ rest) = n" "dropWhile is_word (n @ rest) = rest"
    using assms(1) by (simp_all add: takeWhile_append2 dropWhile_append2)
qed

lemma replaceIdentifiersExpr_identifier:
  assumes id: "is_identifier n" and p: "\<not> word_at prev"
    and r: "rest = [] \<or> \<not> is_word (hd rest)"
  shows "replaceIdentifiersExpr dfs prev (n @ rest)
         = identifierValue dfs n @ replaceIdentifiersExpr dfs (Some (last n)) rest"
proof -
  note f = is_identifier_facts[OF id]
  obtain c cs where n: "n = c # cs" using f(1) by (cases n) auto
  have c: "is_ident_start c" using f(2) n by simp
  have wb: "word_boundary prev (Some c)"
    using p is_ident_start_word[OF c] by (simp add: word_boundary_def word_at_def)
  have tw: "takeWhile is_word ((c # cs) @ rest) = c # cs"
    "dropWhile is_word ((c # cs) @ rest) = rest"
    using takeWhile_word_append[OF f(3) r] n by simp_all
  have "replaceIdentifiersExpr dfs prev (c # (cs @ rest))
        = identifierValue dfs (takeWhile is_word (c # (cs @ rest)))
          @ replaceIdentifiersExpr dfs (Some (last (takeWhile is_word (c # (cs @ rest)))))
              (dropWhile is_word (c # (cs @ rest)))"
    using c wb by (subst replaceIdentifiersExpr.simps) simp
  then show ?thesis using tw unfolding n by simp
qed

lemma replaceOperators_digit: "replaceOperators ''0'' = ''0''" "replaceOperators ''1'' = ''1''"
  by (simp_all add: replaceOperators.simps operator_at_def startsWith_def is_space_def)

lemma evaluateExpression_number:
  "prepareExpression expr dfs = ''0'' \<Longrightarrow> evaluateExpression ev expr dfs = (Inr False, dfs)"
  "prepareExpression expr dfs = ''1'' \<Longrightarrow> evaluateExpression ev expr dfs = (Inr True, dfs)"
  by (simp_all add: evaluateExpression_def isStandaloneNumber_def numberIsNonZero_def trim_def
      is_space_def is_digit_def)

lemma prepareExpression_empty_macro:
  assumes id: "is_identifier n" and m: "map_of dfs n = Some m" "mvalue m = []" "mparams m = None"
  shows "prepareExpression n dfs = ''0''"
proof -
  note f = is_identifier_facts[OF id]
  have "replaceIdentifiersExpr dfs None (n @ []) = identifierValue dfs n @ replaceIdentifiersExpr dfs (Some (last n)) []"
    by (rule replaceIdentifiersExpr_identifier[OF id]) (simp_all add: word_at_def)
  then have "replaceIdentifiersExpr dfs None n = ''0''"
    using m by (simp add: identifierValue_def replaceIdentifiersExpr.simps)
  then show ?thesis
    by (simp add: prepareExpression_def replaceDefined_no_paren[OF f(7)]
        equalityLoop_no_eq[OF f(8)] replaceOperators_digit)
qed

lemma defined_match_call:
  assumes id: "is_identifier n" and w: "list_all is_space w1" "list_all is_space w2"
    "list_all is_space w3"
  shows "defined_match (''defined'' @ w1 @ ''('' @ w2 @ n @ w3 @ '')'') = Some (n, [])"
proof -
  note f = is_identifier_facts[OF id]
  have 1: "after_literal ''defined'' (''defined'' @ w1 @ ''('' @ w2 @ n @ w3 @ '')'')
           = Some (w1 @ ''('' @ w2 @ n @ w3 @ '')'')"
    by (simp add: after_literal_def startsWith_def)
  have 2: "dropWhile is_space (w1 @ ''('' @ w2 @ n @ w3 @ '')'') = ''('' @ w2 @ n @ w3 @ '')''"
    using w(1) by (simp add: dropWhile_spaces is_space_def)
  have 3: "after_literal ''('' (''('' @ w2 @ n @ w3 @ '')'') = Some (w2 @ n @ w3 @ '')'')"
    by (simp add: after_literal_def startsWith_def)
  have 4: "dropWhile is_space (w2 @ n @ w3 @ '')'') = n @ w3 @ '')''"
    using w(2) f(1,4) by (cases n) (simp_all add: dropWhile_spaces)
  have r: "w3 @ '')'' = [] \<or> \<not> is_word (hd (w3 @ '')''))"
    using w(3) is_space_not_word by (cases w3) (auto simp: is_word_def is_alpha_def is_digit_def)
  have 5: "identifier_at (n @ w3 @ '')'') = Some (n, w3 @ '')'')"
    using f(1,2) takeWhile_word_append[OF f(3) r]
    by (cases n) (simp_all add: identifier_at_def)
  have 6: "dropWhile is_space (w3 @ '')'') = '')''"
    using w(3) by (simp add: dropWhile_spaces is_space_def)
  have 7: "after_literal '')'' '')'' = Some []"
    by (simp add: after_literal_def startsWith_def)
  show ?thesis
    unfolding defined_match_def 1 option.case 2 3 4 5 prod.case 6 7 ..
qed

lemma prepareExpression_defined:
  assumes id: "is_identifier n" and w: "list_all is_space w1" "list_all is_space w2"
    "list_all is_space w3" and m: "map_of dfs n \<noteq> None"
  shows "prepareExpression (''defined'' @ w1 @ ''('' @ w2 @ n @ w3 @ '')'') dfs = ''1''"
proof -
  obtain c cs where s: "''defined'' @ w1 @ ''('' @ w2 @ n @ w3 @ '')'' = c # cs"
    by simp
  have "replaceDefined dfs (c # cs) = ''1'' @ replaceDefined dfs []"
    using defined_match_call[OF id w] m unfolding s
    by (subst replaceDefined.simps) simp
  then have 1: "replaceDefined dfs (''defined'' @ w1 @ ''('' @ w2 @ n @ w3 @ '')'') = ''1''"
    unfolding s by (simp add: replaceDefined.simps)
  have 2: "equalityLoop dfs ''1'' 0 = ''1''"
    by (rule equalityLoop_no_eq) simp
  have 3: "replaceIdentifiersExpr dfs None ''1'' = ''1''"
    by (simp add: replaceIdentifiersExpr.simps is_ident_start_def is_alpha_def)
  show ?thesis
    unfolding prepareExpression_def 1 2 3 by (rule replaceOperators_digit)
qed

lemma ifdef_line:
  assumes "directive_with ''#ifdef'' c l"
  shows "startsWith (trim l) ''#''" and "stripComment (trim l) = trim l"
    and "directiveMatch ''#define'' (trim l) = None"
    and "directiveMatch ''#undef'' (trim l) = None"
    and "directiveMatch ''#if'' (trim l) = None"
    and "\<exists>n. directiveMatch ''#ifdef'' (trim l) = Some n \<and> trim (drop n (trim l)) = c"
proof -
  obtain w0 w1 w2 where w: "list_all is_space w0" "list_all is_space w1" "w1 \<noteq> []"
    "list_all is_space w2" and l: "l = w0 @ ''#ifdef'' @ w1 @ c @ w2"
    using directive_with_shape[OF assms] by blast
  have c: "c \<noteq> []" "\<not> is_space (hd c)" "\<not> is_space (last c)" "indexOf c ''//'' = None"
    using assms by (simp_all add: directive_with_def condition_text_def)
  have "trim (w0 @ (''#ifdef'' @ w1 @ c) @ w2) = ''#ifdef'' @ w1 @ c"
    using w c by (intro trim_padded) (simp_all add: is_space_def)
  then have t: "trim l = ''#ifdef'' @ w1 @ c"
    by (simp add: l)
  show "startsWith (trim l) ''#''"
    unfolding t by (simp add: startsWith_def)
  have "CHR ''/'' \<notin> set (''#ifdef'' @ w1)"
    using w(2) by (auto simp: list_all_iff is_space_def)
  then have "indexOf ((''#ifdef'' @ w1) @ c) ''//''
        = map_option (\<lambda>i. length (''#ifdef'' @ w1) + i) (indexOf c ''//'')"
    by (rule indexOf_append_prefix)
  then have "indexOf (trim l) ''//'' = None"
    using c(4) by (simp add: t)
  then show "stripComment (trim l) = trim l"
    by (simp add: stripComment_def)
  show "directiveMatch ''#define'' (trim l) = None" "directiveMatch ''#undef'' (trim l) = None"
    "directiveMatch ''#if'' (trim l) = None"
    unfolding t by (simp_all add: directiveMatch_def startsWith_def is_space_def)
  have tw: "takeWhile is_space (w1 @ c) = w1"
    using w(2) c by (cases c) (simp_all add: takeWhile_spaces)
  have "directiveMatch ''#ifdef'' (trim l) = Some (length ''#ifdef'' + length w1)"
    unfolding t using w(3) by (simp add: directiveMatch_def startsWith_def tw)
  moreover have "trim (drop (length ''#ifdef'' + length w1) (trim l)) = c"
    unfolding t using c by (simp add: trim_id)
  ultimately show "\<exists>n. directiveMatch ''#ifdef'' (trim l) = Some n \<and> trim (drop n (trim l)) = c"
    by blast
qed

lemma processLine_ifdef:
  assumes "directive_with ''#ifdef'' c l"
  shows "processLine ev l st
         = Inr (pushConditional (isCurrentlyIncluding st \<and> map_of (defines st) c \<noteq> None) st)"
proof -
  obtain n where n: "directiveMatch ''#ifdef'' (trim l) = Some n" "trim (drop n (trim l)) = c"
    using ifdef_line(6)[OF assms] by blast
  show ?thesis
    by (simp add: processLine_def processDirective_def Let_def ifdef_line(1-5)[OF assms] n
        cong: if_cong)
qed

lemma empty_macro_scenario:
  assumes m: "map_of dfs NAME \<noteq> None"
    and e: "evaluateExpression ev NAME dfs = (Inr False, dfs)"
      "evaluateExpression ev cD dfs = (Inr True, dfs)"
    and ls: "directive_with ''#if'' NAME lA" "directive_with ''#if'' cD lB"
      "directive_with ''#ifdef'' NAME lC"
    and pa: "\<not> startsWith (trim a) ''#''" and pb: "\<not> startsWith (trim b) ''#''"
    and pc: "\<not> startsWith (trim c) ''#''"
    and eb: "expandMacros b dfs = Inr b'" and ec: "expandMacros c dfs = Inr c'"
  shows "processConditionals ev [lA, a, ''#endif'', lB, b, ''#endif'', lC, c, ''#endif''] dfs
         = Inr [b', c']"
  using m eb ec
  by (simp add: processConditionals_def processLine_if[OF ls(1)] processLine_if[OF ls(2)]
      processLine_ifdef[OF ls(3)] e processLine_endif
      processLine_plain[OF pa] processLine_plain[OF pb] processLine_plain[OF pc]
      pushConditional_def isCurrentlyIncluding_def)

text \<open>
  Claim C10.  Let \<open>NAME\<close> be an identifier that the table defines as an object-like macro
  with the empty text.  The identifier pass replaces an occurrence of \<open>NAME\<close> that stands
  as a word by \<open>0\<close>; the expression \<open>NAME\<close> becomes \<open>0\<close> and evaluates to false; the
  expression \<open>defined(NAME)\<close>, with any white space around the parentheses, becomes \<open>1\<close>
  and evaluates to true; neither consults the host evaluator.  So of the bodies of
  \<open>#if NAME\<close>, \<open>#if defined(NAME)\<close> and \<open>#ifdef NAME\<close> the first is left out and the other
  two are in the output.
\<close>

theorem empty_macro_false_but_defined:
  "is_identifier NAME \<and> map_of dfs NAME = Some m \<and> mvalue m = [] \<and> mparams m = None
   \<longrightarrow> (\<not> word_at prev \<and> (rest = [] \<or> \<not> is_word (hd rest))
        \<longrightarrow> replaceIdentifiersExpr dfs prev (NAME @ rest)
            = ''0'' @ replaceIdentifiersExpr dfs (Some (last NAME)) rest)
       \<and> prepareExpression NAME dfs = ''0''
       \<and> evaluateExpression ev NAME dfs = (Inr False, dfs)
       \<and> (list_all is_space w1 \<and> list_all is_space w2 \<and> list_all is_space w3
           \<longrightarrow> prepareExpression (''defined'' @ w1 @ ''('' @ w2 @ NAME @ w3 @ '')'') dfs = ''1''
               \<and> evaluateExpression ev (''defined'' @ w1 @ ''('' @ w2 @ NAME @ w3 @ '')'') dfs
                 = (Inr True, dfs))
       \<and> (directive_with ''#if'' NAME lA
            \<and> directive_with ''#if'' (''defined('' @ NAME @ '')'') lB
            \<and> directive_with ''#ifdef'' NAME lC
            \<and> \<not> startsWith (trim a) ''#'' \<and> \<not> startsWith (trim b) ''#''
            \<and> \<not> startsWith (trim c) ''#''
            \<and> expandMacros b dfs = Inr b' \<and> expandMacros c dfs = Inr c'
           \<longrightarrow> processConditionals ev
                 [lA, a, ''#endif'', lB, b, ''#endif'', lC, c, ''#endif''] dfs
               = Inr [b', c'])"
proof (intro impI conjI)
  assume h: "is_identifier NAME \<and> map_of dfs NAME = Some m \<and> mvalue m = [] \<and> mparams m = None"
  then have id: "is_identifier NAME"
    and m: "map_of dfs NAME = Some m" "mvalue m = []" "mparams m = None"
    by simp_all
  have iv: "identifierValue dfs NAME = ''0''"
    using m by (simp add: identifierValue_def)
  show p0: "prepareExpression NAME dfs = ''0''"
    by (rule prepareExpression_empty_macro[OF id m])
  show "evaluateExpression ev NAME dfs = (Inr False, dfs)"
    by (rule evaluateExpression_number(1)[OF p0])
  {
    assume "\<not> word_at prev \<and> (rest = [] \<or> \<not> is_word (hd rest))"
    then show "replaceIdentifiersExpr dfs prev (NAME @ rest)
            = ''0'' @ replaceIdentifiersExpr dfs (Some (last NAME)) rest"
      using replaceIdentifiersExpr_identifier[OF id, of prev rest dfs] iv by simp
  }
  {
    assume w: "list_all is_space w1 \<and> list_all is_space w2 \<and> list_all is_space w3"
    have "map_of dfs NAME \<noteq> None" using m by simp
    then show p1: "prepareExpression (''defined'' @ w1 @ ''('' @ w2 @ NAME @ w3 @ '')'') dfs = ''1''"
      using w by (intro prepareExpression_defined[OF id]) simp_all
    show "evaluateExpression ev (''defined'' @ w1 @ ''('' @ w2 @ NAME @ w3 @ '')'') dfs
          = (Inr True, dfs)"
      by (rule evaluateExpression_number(2)[OF p1])
  }
  {
    assume s: "directive_with ''#if'' NAME lA
            \<and> directive_with ''#if'' (''defined('' @ NAME @ '')'') lB
            \<and> directive_with ''#ifdef'' NAME lC
            \<and> \<not> startsWith (trim a) ''#'' \<and> \<not> startsWith (trim b) ''#''
            \<and> \<not> startsWith (trim c) ''#''
            \<and> expandMacros b dfs = Inr b' \<and> expandMacros c dfs = Inr c'"
    then have ls: "directive_with ''#if'' NAME lA"
      "directive_with ''#if'' (''defined('' @ NAME @ '')'') lB"
      "directive_with ''#ifdef'' NAME lC"
      and ps: "\<not> startsWith (trim a) ''#''" "\<not> startsWith (trim b) ''#''"
        "\<not> startsWith (trim c) ''#''"
      and es: "expandMacros b dfs = Inr b'" "expandMacros c dfs = Inr c'"
      by blast+
    have "map_of dfs NAME \<noteq> None" using m by simp
    moreover have "evaluateExpression ev NAME dfs = (Inr False, dfs)"
      by (rule evaluateExpression_number(1)[OF p0])
    moreover have "prepareExpression (''defined'' @ [] @ ''('' @ [] @ NAME @ [] @ '')'') dfs = ''1''"
      using m by (intro prepareExpression_defined[OF id]) simp_all
    then have "evaluateExpression ev (''defined('' @ NAME @ '')'') dfs = (Inr True, dfs)"
      by (intro evaluateExpression_number(2)) simp
    ultimately show "processConditionals ev
          [lA, a, ''#endif'', lB, b, ''#endif'', lC, c, ''#endif''] dfs
          = Inr [b', c']"
      using ls ps es by (rule empty_macro_scenario)
  }
qed

text \<open>
  \<open>FEATURE\<close> is defined with no text; the evaluator throws \<open>null\<close> on every text it is
  given, so that consulting it would abort the run.
\<close>

theorem empty_macro_false_but_defined_witness:
  "replaceIdentifiersExpr [(''FEATURE'', \<lparr>mvalue = [], mparams = None\<rparr>)] (Some (CHR ''!''))
     ''FEATURE && 1'' = ''0 && 1''
   \<and> prepareExpression ''FEATURE'' [(''FEATURE'', \<lparr>mvalue = [], mparams = None\<rparr>)] = ''0''
   \<and> evaluateExpression (constant_eval (Throws ThrownNullish)) ''FEATURE''
        [(''FEATURE'', \<lparr>mvalue = [], mparams = None\<rparr>)]
      = (Inr False, [(''FEATURE'', \<lparr>mvalue = [], mparams = None\<rparr>)])
   \<and> prepareExpression ''defined ( FEATURE)'' [(''FEATURE'', \<lparr>mvalue = [], mparams = None\<rparr>)]
      = ''1''
   \<and> evaluateExpression (constant_eval (Throws ThrownNullish)) ''defined ( FEATURE)''
        [(''FEATURE'', \<lparr>mvalue = [], mparams = None\<rparr>)]
      = (Inr True, [(''FEATURE'', \<lparr>mvalue = [], mparams = None\<rparr>)])
   \<and> processConditionals (constant_eval (Throws ThrownNullish))
        [''#if FEATURE'', ''a'', ''#endif'', ''#if defined(FEATURE)'', ''b'', ''#endif'',
         ''  #ifdef FEATURE'', ''c FEATURE;'', ''#endif'']
        [(''FEATURE'', \<lparr>mvalue = [], mparams = None\<rparr>)]
      = Inr [''b'', ''c ;'']"
proof -
  let ?m = "\<lparr>mvalue = [], mparams = None\<rparr>"
  let ?dfs = "[(''FEATURE'', ?m)]"
  have h: "is_identifier ''FEATURE''" "map_of ?dfs ''FEATURE'' = Some ?m"
    "\<not> word_at (Some (CHR ''!''))" "\<not> is_word (hd '' && 1'')"
    "replaceIdentifiersExpr ?dfs (Some (last ''FEATURE'')) '' && 1'' = '' && 1''"
    "list_all is_space '' ''" "list_all is_space []"
    "directive_with ''#if'' ''FEATURE'' ''#if FEATURE''"
    "directive_with ''#if'' (''defined('' @ ''FEATURE'' @ '')'') ''#if defined(FEATURE)''"
    "directive_with ''#ifdef'' ''FEATURE'' ''  #ifdef FEATURE''"
    "\<not> startsWith (trim ''a'') ''#''" "\<not> startsWith (trim ''b'') ''#''"
    "\<not> startsWith (trim ''c FEATURE;'') ''#''"
    "expandMacros ''b'' ?dfs = Inr ''b''" "expandMacros ''c FEATURE;'' ?dfs = Inr ''c ;''"
    by code_simp+
  show ?thesis
    using empty_macro_false_but_defined
      [where NAME = "''FEATURE''" and dfs = ?dfs and m = ?m and prev = "Some (CHR ''!'')"
         and rest = "'' && 1''" and ev = "constant_eval (Throws ThrownNullish)"
         and ?w1.0 = "'' ''" and ?w2.0 = "'' ''" and ?w3.0 = "[]"
         and lA = "''#if FEATURE''" and lB = "''#if defined(FEATURE)''"
         and lC = "''  #ifdef FEATURE''" and a = "''a''" and b = "''b''"
         and c = "''c FEATURE;''" and b' = "''b''" and c' = "''c ;''"]
      h
    by simp
qed

end
